theory Spec2Isabelle
  imports Main "HOL-Library.Sublist"
begin

section \<open>Strings as the detector uses them\<close>

text \<open>
  The detector of \<^verbatim>\<open>src/app/utils/htmlParser.ts\<close> works on JavaScript strings. They are
  modelled as \<^typ>\<open>string\<close>, in UTF-8; case folding is the ASCII one (the keywords and tag
  names the detector compares with are ASCII). An attribute that is absent
  (\<^verbatim>\<open>undefined\<close>) is \<^term>\<open>None\<close>.
\<close>

definition lowerChar :: "char \<Rightarrow> char" where
  "lowerChar c = (let n = of_char c :: nat in if 65 \<le> n \<and> n \<le> 90 then char_of (n + 32) else c)"

definition upperChar :: "char \<Rightarrow> char" where
  "upperChar c = (let n = of_char c :: nat in if 97 \<le> n \<and> n \<le> 122 then char_of (n - 32) else c)"

definition toLowerCase :: "string \<Rightarrow> string" where
  "toLowerCase s = map lowerChar s"

definition toUpperCase :: "string \<Rightarrow> string" where
  "toUpperCase s = map upperChar s"

fun startsWith :: "string \<Rightarrow> string \<Rightarrow> bool" where
  "startsWith s [] = True"
| "startsWith [] (c # p) = False"
| "startsWith (d # s) (c # p) = (d = c \<and> startsWith s p)"

text \<open>\<^verbatim>\<open>s.includes(p)\<close>: \<open>p\<close> occurs in \<open>s\<close> as a contiguous substring.\<close>

fun includesStr :: "string \<Rightarrow> string \<Rightarrow> bool" where
  "includesStr [] p = (p = [])"
| "includesStr (d # s) p = (startsWith (d # s) p \<or> includesStr s p)"

text \<open>\<^verbatim>\<open>xs.join(' ')\<close>\<close>

fun join :: "string list \<Rightarrow> string" where
  "join [] = []"
| "join [x] = x"
| "join (x # y # ys) = x @ '' '' @ join (y # ys)"

text \<open>Decimal rendering of an array index, for the template \<^verbatim>\<open>`input-${index}`\<close>.\<close>

fun showNat :: "nat \<Rightarrow> string" where
  "showNat n = (if n < 10 then [''0123456789'' ! n]
                else showNat (n div 10) @ [''0123456789'' ! (n mod 10)])"

declare showNat.simps [simp del]

text \<open>\<^verbatim>\<open>v || undefined\<close>: the empty string is falsy, as \<^verbatim>\<open>undefined\<close> is.\<close>

definition truthy :: "string option \<Rightarrow> string option" where
  "truthy v = (case v of None \<Rightarrow> None | Some s \<Rightarrow> if s = [] then None else Some s)"

text \<open>\<^verbatim>\<open>v || d\<close> for a string default \<open>d\<close>.\<close>

definition orElse :: "string option \<Rightarrow> string \<Rightarrow> string" where
  "orElse v d = (case truthy v of None \<Rightarrow> d | Some s \<Rightarrow> s)"

section \<open>Errors and the engine\<close>

text \<open>
  Reading a property of \<^verbatim>\<open>undefined\<close> raises a \<^verbatim>\<open>TypeError\<close>; the detector reads
  \<^verbatim>\<open>allAuthInputs[0].element\<close>. The tree library walks a subtree recursively when it
  collects text (\<^verbatim>\<open>.text()\<close>) and when it clones and serializes an element
  (\<^verbatim>\<open>.prop('outerHTML')\<close>); on a subtree nested deeper than the call stack allows, the
  engine raises a \<^verbatim>\<open>RangeError\<close>.
\<close>

datatype js_error = TypeError | RangeError

text \<open>
  What the detector takes from its environment: how the selector engine compares the value of
  an attribute selector \<^verbatim>\<open>[type="v"]\<close> with the value of the attribute (exactly, or
  ignoring case; selector value first), and how deep a subtree the two recursive routines can
  walk before the stack is exhausted.
\<close>

record engine =
  typeMatches :: "string \<Rightarrow> string \<Rightarrow> bool"
  textDepth :: nat
  markupDepth :: nat

text \<open>Sequencing of calls that may raise: the first error ends the run.\<close>

definition andThen :: "js_error + 'a \<Rightarrow> ('a \<Rightarrow> js_error + 'b) \<Rightarrow> js_error + 'b" where
  "andThen x f = (case x of Inl err \<Rightarrow> Inl err | Inr v \<Rightarrow> f v)"

section \<open>The document tree and the queries of the tree library\<close>

text \<open>
  \<^verbatim>\<open>cheerio.load(html)\<close> builds a tree; the detector only queries it. A document is the
  list of the nodes under the document root, and an element is named by the child indices
  that lead to it from the root, so that two elements with the same markup stay different
  elements. The content of a \<^verbatim>\<open>template\<close> element hangs below it in a document fragment
  of its own, the node \<open>Fragment\<close>. The queries below are the ones the detector calls:
  \<^verbatim>\<open>attr\<close>, \<^verbatim>\<open>parent\<close>, \<^verbatim>\<open>closest\<close>, \<^verbatim>\<open>find\<close>, \<^verbatim>\<open>text\<close>,
  \<^verbatim>\<open>prop('tagName')\<close>, \<^verbatim>\<open>prop('outerHTML')\<close>, \<^verbatim>\<open>is\<close>, \<^verbatim>\<open>not\<close> and \<^verbatim>\<open>add\<close>.
\<close>

datatype node =
    Element string "(string \<times> string) list" "node list"
  | Text string
  | Comment string
  | Fragment "node list"

type_synonym document = "node list"
type_synonym element = "nat list"

fun childrenOf :: "node \<Rightarrow> node list" where
  "childrenOf (Element t as cs) = cs"
| "childrenOf (Fragment cs) = cs"
| "childrenOf (Text s) = []"
| "childrenOf (Comment s) = []"

fun nodeAt :: "node list \<Rightarrow> element \<Rightarrow> node option" where
  "nodeAt ns [] = None"
| "nodeAt ns [i] = (if i < length ns then Some (ns ! i) else None)"
| "nodeAt ns (i # j # p) = (if i < length ns then nodeAt (childrenOf (ns ! i)) (j # p) else None)"

text \<open>The nodes below a node, in document order, each by its indices from that node.\<close>

fun below :: "node \<Rightarrow> element list"
  and belowAll :: "nat \<Rightarrow> node list \<Rightarrow> element list" where
  "below (Element t as cs) = belowAll 0 cs"
| "below (Fragment cs) = belowAll 0 cs"
| "below (Text s) = []"
| "below (Comment s) = []"
| "belowAll i [] = []"
| "belowAll i (c # cs) = [i] # map ((#) i) (below c) @ belowAll (Suc i) cs"

text \<open>The number of levels of a subtree: what a recursive walk needs of the stack.\<close>

fun height :: "node \<Rightarrow> nat" where
  "height (Element t as cs) = Suc (foldr max (map height cs) 0)"
| "height (Fragment cs) = Suc (foldr max (map height cs) 0)"
| "height (Text s) = 1"
| "height (Comment s) = 1"

definition tagOf :: "document \<Rightarrow> element \<Rightarrow> string option" where
  "tagOf doc e = (case nodeAt doc e of Some (Element t as cs) \<Rightarrow> Some t | _ \<Rightarrow> None)"

definition isTag :: "string \<Rightarrow> document \<Rightarrow> element \<Rightarrow> bool" where
  "isTag t doc e = (tagOf doc e = Some t)"

text \<open>
  \<^verbatim>\<open>$el.attr(name)\<close>: the value of the first attribute of that name, if any (the name itself
  for the boolean attributes); without a \<^verbatim>\<open>value\<close> attribute, a radio button or a checkbox
  has the value \<^verbatim>\<open>on\<close>. The detector reads attributes of \<^verbatim>\<open>input\<close> elements only.
\<close>

definition booleanAttributes :: "string list" where
  "booleanAttributes = [''autofocus'', ''autoplay'', ''async'', ''checked'', ''controls'', ''defer'',
                        ''disabled'', ''hidden'', ''loop'', ''multiple'', ''open'', ''readonly'',
                        ''required'', ''scoped'', ''selected'']"

definition attr :: "document \<Rightarrow> element \<Rightarrow> string \<Rightarrow> string option" where
  "attr doc e a =
     (case nodeAt doc e of
        Some (Element t as cs) \<Rightarrow>
          (case map_of as a of
             Some v \<Rightarrow> Some (if toLowerCase a \<in> set booleanAttributes then a else v)
           | None \<Rightarrow>
               if t = ''input'' \<and> a = ''value'' \<and>
                  (map_of as ''type'' = Some ''radio'' \<or> map_of as ''type'' = Some ''checkbox'')
               then Some ''on'' else None)
      | _ \<Rightarrow> None)"

text \<open>The attribute selector \<^verbatim>\<open>[type="v"]\<close>, with the engine's comparison.\<close>

definition typeIs :: "engine \<Rightarrow> string \<Rightarrow> document \<Rightarrow> element \<Rightarrow> bool" where
  "typeIs eng v doc e =
     (case nodeAt doc e of
        Some (Element t as cs) \<Rightarrow>
          (case map_of as ''type'' of None \<Rightarrow> False | Some w \<Rightarrow> typeMatches eng v w)
      | _ \<Rightarrow> False)"

text \<open>\<^verbatim>\<open>$(sel)\<close>: the elements of the document that match, in document order.\<close>

definition select :: "(document \<Rightarrow> element \<Rightarrow> bool) \<Rightarrow> document \<Rightarrow> element list" where
  "select sel doc = filter (sel doc) (belowAll 0 doc)"

text \<open>\<^verbatim>\<open>$el.find(sel)\<close>: the matching elements strictly below \<open>e\<close>, in document order.\<close>

definition find_below :: "(document \<Rightarrow> element \<Rightarrow> bool) \<Rightarrow> document \<Rightarrow> element \<Rightarrow> element list" where
  "find_below sel doc e =
     (case nodeAt doc e of
        None \<Rightarrow> []
      | Some n \<Rightarrow> filter (sel doc) (map ((@) e) (below n)))"

text \<open>\<^verbatim>\<open>find\<close> on a selection of at most one element (an empty selection finds nothing).\<close>

definition find_in :: "(document \<Rightarrow> element \<Rightarrow> bool) \<Rightarrow> document \<Rightarrow> element option \<Rightarrow> element list" where
  "find_in sel doc s = (case s of None \<Rightarrow> [] | Some e \<Rightarrow> find_below sel doc e)"

text \<open>
  \<^verbatim>\<open>$el.parent()\<close>: the element one level up. The selection is empty (\<^term>\<open>None\<close>) when
  the node one level up is not an element: for a node directly under the document root and
  for a node directly in the content of a \<^verbatim>\<open>template\<close>.
\<close>

definition parent :: "document \<Rightarrow> element \<Rightarrow> element option" where
  "parent doc e =
     (if length e \<le> 1 then None
      else if tagOf doc (butlast e) = None then None
      else Some (butlast e))"

text \<open>
  \<^verbatim>\<open>$el.closest(tag)\<close>: the element itself or its nearest ancestor with that tag, going up
  as long as the nodes are elements.
\<close>

function closest :: "string \<Rightarrow> document \<Rightarrow> element \<Rightarrow> element option" where
  "closest t doc e =
     (if e = [] then None
      else if tagOf doc e = None then None
      else if isTag t doc e then Some e
      else closest t doc (butlast e))"
  by pat_completeness auto
termination
  by (relation "measure (\<lambda>(t, doc, e). length e)") auto

declare closest.simps [simp del]

text \<open>
  \<^verbatim>\<open>.text()\<close>: the text of the nodes of a selection and of everything below them. The
  walk is recursive and raises when a subtree is deeper than the engine allows.
\<close>

fun textContent :: "node \<Rightarrow> string" where
  "textContent (Element t as cs) = concat (map textContent cs)"
| "textContent (Fragment cs) = concat (map textContent cs)"
| "textContent (Text s) = s"
| "textContent (Comment s) = []"

definition tooDeep :: "nat \<Rightarrow> document \<Rightarrow> element \<Rightarrow> bool" where
  "tooDeep limit doc e = (case nodeAt doc e of None \<Rightarrow> False | Some n \<Rightarrow> limit < height n)"

definition textOf :: "engine \<Rightarrow> document \<Rightarrow> element list \<Rightarrow> js_error + string" where
  "textOf eng doc es =
     (if list_ex (tooDeep (textDepth eng) doc) es then Inl RangeError
      else Inr (concat (map (\<lambda>e. case nodeAt doc e of None \<Rightarrow> [] | Some n \<Rightarrow> textContent n) es)))"

text \<open>\<^verbatim>\<open>a.add(b)\<close>: the elements of either selection, each once, in document order.\<close>

definition add_sel :: "document \<Rightarrow> element list \<Rightarrow> element list \<Rightarrow> element list" where
  "add_sel doc xs ys = filter (\<lambda>e. e \<in> set xs \<or> e \<in> set ys) (belowAll 0 doc)"

text \<open>
  The serializer behind \<^verbatim>\<open>prop('outerHTML')\<close>. Every attribute is written as
  \<^verbatim>\<open>name="value"\<close>, the empty value included; \<^verbatim>\<open>&\<close>, the no-break space and the double
  quote are escaped in attribute values, \<^verbatim>\<open>&\<close>, the no-break space, \<^verbatim>\<open><\<close> and
  \<^verbatim>\<open>>\<close> in text, except in the elements whose text is raw; void elements have neither
  content nor closing tag; the content of a template is written between its tags.
\<close>

definition voidElements :: "string list" where
  "voidElements = [''area'', ''base'', ''basefont'', ''bgsound'', ''br'', ''col'', ''embed'',
                   ''frame'', ''hr'', ''img'', ''input'', ''keygen'', ''link'', ''meta'', ''param'',
                   ''source'', ''track'', ''wbr'']"

definition rawTextElements :: "string list" where
  "rawTextElements = [''style'', ''script'', ''xmp'', ''iframe'', ''noembed'', ''noframes'',
                      ''plaintext'', ''noscript'']"

fun escapeText :: "string \<Rightarrow> string" where
  "escapeText [] = []"
| "escapeText (c # s) =
     (if c = CHR ''&'' then ''&amp;'' @ escapeText s
      else if c = CHR ''<'' then ''&lt;'' @ escapeText s
      else if c = CHR ''>'' then ''&gt;'' @ escapeText s
      else if c = CHR 0xC2 \<and> s \<noteq> [] \<and> hd s = CHR 0xA0 then ''&nbsp;'' @ escapeText (tl s)
      else c # escapeText s)"

fun escapeAttribute :: "string \<Rightarrow> string" where
  "escapeAttribute [] = []"
| "escapeAttribute (c # s) =
     (if c = CHR ''&'' then ''&amp;'' @ escapeAttribute s
      else if c = CHR 0x22 then ''&quot;'' @ escapeAttribute s
      else if c = CHR 0xC2 \<and> s \<noteq> [] \<and> hd s = CHR 0xA0 then ''&nbsp;'' @ escapeAttribute (tl s)
      else c # escapeAttribute s)"

definition attrMarkup :: "string \<times> string \<Rightarrow> string" where
  "attrMarkup kv = '' '' @ fst kv @ ''=\"'' @ escapeAttribute (snd kv) @ ''\"''"

text \<open>The flag says whether the node is the child of an element whose text is raw.\<close>

fun markup :: "bool \<Rightarrow> node \<Rightarrow> string" where
  "markup raw (Element t as cs) =
     ''<'' @ t @ concat (map attrMarkup as) @ ''>'' @
     (if t \<in> set voidElements then []
      else concat (map (markup (t \<in> set rawTextElements)) cs) @ ''</'' @ t @ ''>'')"
| "markup raw (Fragment cs) = concat (map (markup False) cs)"
| "markup raw (Text s) = (if raw then s else escapeText s)"
| "markup raw (Comment s) = ''<!--'' @ s @ ''-->''"

text \<open>The markup of an element, when the serializer gets through.\<close>

definition markupOf :: "document \<Rightarrow> element \<Rightarrow> string option" where
  "markupOf doc e = map_option (markup False) (nodeAt doc e)"

text \<open>
  \<^verbatim>\<open>prop('outerHTML')\<close>: \<^verbatim>\<open>undefined\<close> on an empty selection; otherwise the element is
  cloned and serialized, recursively, which raises when its subtree is deeper than the engine
  allows.
\<close>

definition outerHTML :: "engine \<Rightarrow> document \<Rightarrow> element \<Rightarrow> js_error + string option" where
  "outerHTML eng doc e =
     (if tooDeep (markupDepth eng) doc e then Inl RangeError else Inr (markupOf doc e))"

text \<open>A selection of at most one element, as the list of its elements.\<close>

definition elements :: "element option \<Rightarrow> element list" where
  "elements s = (case s of None \<Rightarrow> [] | Some e \<Rightarrow> [e])"

section \<open>The report\<close>

record password_input =
  pw_selector :: string
  pw_name :: "string option"
  pw_id :: "string option"
  pw_placeholder :: "string option"
  pw_type :: "string option"

record other_input =
  oi_type :: string
  oi_name :: "string option"
  oi_id :: "string option"
  oi_placeholder :: "string option"

record AuthForm =
  hasPasswordInput :: bool
  formElement :: "string option"
  parentElement :: "string option"
  inputCount :: nat
  passwordInputs :: "password_input list"
  otherInputs :: "other_input list"

text \<open>The object both versions return when they detect nothing.\<close>

definition negativeResult :: AuthForm where
  "negativeResult =
     \<lparr>hasPasswordInput = False, formElement = None, parentElement = None, inputCount = 0,
      passwordInputs = [], otherInputs = []\<rparr>"

text \<open>The entries of the array \<^verbatim>\<open>allAuthInputs\<close>.\<close>

record auth_input =
  ai_element :: element
  ai_selector :: string
  ai_name :: "string option"
  ai_id :: "string option"
  ai_placeholder :: "string option"
  ai_type :: "string option"

text \<open>The read \<^verbatim>\<open>allAuthInputs[0].element\<close>, which raises on an empty array.\<close>

definition firstElement :: "auth_input list \<Rightarrow> js_error + element" where
  "firstElement xs = (case xs of [] \<Rightarrow> Inl TypeError | x # _ \<Rightarrow> Inr (ai_element x))"

section \<open>The candidate input scanner\<close>

text \<open>
  The source holds two versions of \<^verbatim>\<open>hasAuthenticationContext\<close> and of
  \<^verbatim>\<open>parseHtmlForAuthForms\<close>. The first accepts an input on a keyword or on its context
  (the permissive variant); the second asks for a keyword and a context, each from a shorter
  list (the strict variant).
\<close>

text \<open>The attributes joined into one lower-case string.\<close>

definition attributeNames :: "string list" where
  "attributeNames = [''name'', ''id'', ''placeholder'', ''type'', ''class'', ''aria-label'',
                     ''aria-labelledby'', ''autocomplete'', ''data-testid'', ''data-cy'',
                     ''data-test'']"

definition attributes :: "document \<Rightarrow> element \<Rightarrow> string" where
  "attributes doc e =
     toLowerCase (join (filter (\<lambda>a. a \<noteq> [] \<and> a \<noteq> ''undefined'')
       (concat (map (\<lambda>n. case attr doc e n of None \<Rightarrow> [] | Some v \<Rightarrow> [v]) attributeNames))))"

text \<open>The selector \<^verbatim>\<open>button, input[type="submit"], a\<close>.\<close>

definition buttonLike :: "engine \<Rightarrow> document \<Rightarrow> element \<Rightarrow> bool" where
  "buttonLike eng doc e =
     (isTag ''button'' doc e \<or> (isTag ''input'' doc e \<and> typeIs eng ''submit'' doc e)
      \<or> isTag ''a'' doc e)"

definition hasAuthenticationContext_permissive ::
  "engine \<Rightarrow> document \<Rightarrow> element \<Rightarrow> js_error + bool" where
  "hasAuthenticationContext_permissive eng doc input =
     (let par = parent doc input;
          form = closest ''form'' doc input
      in andThen (textOf eng doc (elements par)) (\<lambda>parentRaw.
         andThen (if form \<noteq> None then textOf eng doc (elements form) else Inr []) (\<lambda>formRaw.
           let parentText = toLowerCase parentRaw;
               formText = toLowerCase formRaw;
               authTextPatterns =
                 [''sign in'', ''signin'', ''log in'', ''login'', ''log in to'',
                  ''enter your password'', ''password'', ''username'', ''email'',
                  ''forgot password'', ''reset password'', ''create account'',
                  ''authentication'', ''credentials'', ''access''];
               hasAuthText =
                 list_ex (\<lambda>pattern. includesStr parentText pattern \<or> includesStr formText pattern)
                   authTextPatterns;
               nearbyButtons =
                 add_sel doc (find_in (buttonLike eng) doc par) (find_in (buttonLike eng) doc form)
           in andThen (textOf eng doc nearbyButtons) (\<lambda>buttonRaw.
                let buttonText = toLowerCase buttonRaw;
                    authButtonPatterns =
                      [''sign in'', ''signin'', ''log in'', ''login'', ''submit'',
                       ''continue'', ''next'', ''enter'', ''access''];
                    hasAuthButton =
                      list_ex (\<lambda>pattern. includesStr buttonText pattern) authButtonPatterns
                in Inr (hasAuthText \<or> hasAuthButton)))))"

definition hasAuthenticationContext_strict ::
  "engine \<Rightarrow> document \<Rightarrow> element \<Rightarrow> js_error + bool" where
  "hasAuthenticationContext_strict eng doc input =
     (let par = parent doc input;
          form = closest ''form'' doc input
      in andThen (textOf eng doc (elements par)) (\<lambda>parentRaw.
         andThen (if form \<noteq> None then textOf eng doc (elements form) else Inr []) (\<lambda>formRaw.
           let parentText = toLowerCase parentRaw;
               formText = toLowerCase formRaw;
               strongAuthTextPatterns =
                 [''sign in'', ''signin'', ''log in'', ''login'', ''log in to'',
                  ''enter your password'', ''forgot password'', ''reset password'',
                  ''create account'', ''sign up'', ''register''];
               hasStrongAuthText =
                 list_ex (\<lambda>pattern. includesStr parentText pattern \<or> includesStr formText pattern)
                   strongAuthTextPatterns;
               nearbyButtons =
                 add_sel doc (find_in (buttonLike eng) doc par) (find_in (buttonLike eng) doc form)
           in andThen (textOf eng doc nearbyButtons) (\<lambda>buttonRaw.
                let buttonText = toLowerCase buttonRaw;
                    strongAuthButtonPatterns =
                      [''sign in'', ''signin'', ''log in'', ''login'', ''sign up'', ''register''];
                    hasStrongAuthButton =
                      list_ex (\<lambda>pattern. includesStr buttonText pattern) strongAuthButtonPatterns
                in Inr (hasStrongAuthText \<and> hasStrongAuthButton)))))"

text \<open>The filter of the permissive variant: which inputs become \<^verbatim>\<open>authInputs\<close>.\<close>

definition isAuthInput_permissive ::
  "engine \<Rightarrow> document \<Rightarrow> element \<Rightarrow> js_error + bool" where
  "isAuthInput_permissive eng doc input =
     (let attrs = attributes doc input in
      if attr doc input ''type'' = Some ''password'' then Inr True
      else
        let inputValue = orElse (attr doc input ''value'') [];
            isPasswordField =
              (includesStr attrs ''password'' \<or> includesStr attrs ''pass'' \<or>
               includesStr attrs ''pwd'' \<or>
               (inputValue \<noteq> [] \<and> length inputValue > 0 \<and> includesStr attrs ''hidden''));
            authKeywords =
              [''password'', ''pass'', ''passwd'', ''pwd'',
               ''email'', ''username'', ''user'', ''login'', ''signin'', ''sign-in'',
               ''authentication'', ''auth'', ''credential''];
            hasAuthKeyword = list_ex (\<lambda>keyword. includesStr attrs keyword) authKeywords;
            hasAuthPattern =
              (includesStr attrs ''current-password'' \<or> includesStr attrs ''new-password'' \<or>
               includesStr attrs ''username'' \<or> includesStr attrs ''email'' \<or>
               includesStr attrs ''login'' \<or> includesStr attrs ''signin'')
        in andThen (hasAuthenticationContext_permissive eng doc input) (\<lambda>hasContext.
             Inr (isPasswordField \<or> hasAuthKeyword \<or> hasAuthPattern \<or> hasContext)))"

text \<open>The filter of the strict variant: which inputs become \<^verbatim>\<open>potentialAuthInputs\<close>.\<close>

definition isAuthInput_strict ::
  "engine \<Rightarrow> document \<Rightarrow> element \<Rightarrow> js_error + bool" where
  "isAuthInput_strict eng doc input =
     (let attrs = attributes doc input in
      if attr doc input ''type'' = Some ''password'' then Inr True
      else
        let strongAuthKeywords =
              [''email'', ''username'', ''user'', ''login'', ''signin'', ''sign-in''];
            hasStrongAuthKeyword =
              list_ex (\<lambda>keyword. includesStr attrs keyword) strongAuthKeywords
        in andThen (hasAuthenticationContext_strict eng doc input) (\<lambda>hasStrongContext.
             Inr (hasStrongAuthKeyword \<and> hasStrongContext)))"

text \<open>\<^verbatim>\<open>allInputs.filter(...)\<close> with a test that may raise: the first error ends the run.\<close>

fun filterInputs :: "(element \<Rightarrow> js_error + bool) \<Rightarrow> element list \<Rightarrow> js_error + element list" where
  "filterInputs test [] = Inr []"
| "filterInputs test (e # es) =
     (case test e of
        Inl err \<Rightarrow> Inl err
      | Inr keep \<Rightarrow>
          (case filterInputs test es of
             Inl err \<Rightarrow> Inl err
           | Inr rest \<Rightarrow> Inr (if keep then e # rest else rest)))"

section \<open>Collecting and classifying the candidate inputs\<close>

text \<open>The key under which the set \<^verbatim>\<open>processedInputs\<close> remembers an input.\<close>

definition inputSelector :: "document \<Rightarrow> nat \<Rightarrow> element \<Rightarrow> string" where
  "inputSelector doc index e =
     (let inputId = orElse (attr doc e ''id'')
                      (orElse (attr doc e ''name'') (''input-'' @ showNat index))
      in orElse (attr doc e ''type'') ''input'' @ ''['' @
         (if inputId \<noteq> [] then ''id=\"'' @ inputId @ ''\"''
          else ''name=\"'' @ (case attr doc e ''name'' of None \<Rightarrow> ''undefined'' | Some n \<Rightarrow> n)
               @ ''\"'') @ '']'')"

text \<open>The object pushed to \<^verbatim>\<open>allAuthInputs\<close>, for the markup \<open>html\<close> of the input.\<close>

definition inputRecord :: "document \<Rightarrow> element \<Rightarrow> string option \<Rightarrow> auth_input" where
  "inputRecord doc e html =
     \<lparr>ai_element = e,
      ai_selector = (case truthy html of None \<Rightarrow> [] | Some s \<Rightarrow> s),
      ai_name = truthy (attr doc e ''name''),
      ai_id = truthy (attr doc e ''id''),
      ai_placeholder = truthy (attr doc e ''placeholder''),
      ai_type = truthy (attr doc e ''type'')\<rparr>"

definition authInputOf :: "engine \<Rightarrow> document \<Rightarrow> element \<Rightarrow> js_error + auth_input" where
  "authInputOf eng doc e = andThen (outerHTML eng doc e) (\<lambda>html. Inr (inputRecord doc e html))"

text \<open>
  The loop \<^verbatim>\<open>authInputs.each((index, element) => ...)\<close>: the index counts the
  candidates, an input whose key was seen is skipped, the others are appended.
\<close>

fun collectInputs ::
  "engine \<Rightarrow> document \<Rightarrow> nat \<Rightarrow> element list \<Rightarrow> string set \<Rightarrow> auth_input list
   \<Rightarrow> js_error + auth_input list" where
  "collectInputs eng doc index [] processedInputs allAuthInputs = Inr allAuthInputs"
| "collectInputs eng doc index (e # es) processedInputs allAuthInputs =
     (let sel = inputSelector doc index e in
      if sel \<in> processedInputs
      then collectInputs eng doc (Suc index) es processedInputs allAuthInputs
      else (case authInputOf eng doc e of
              Inl err \<Rightarrow> Inl err
            | Inr input \<Rightarrow>
                collectInputs eng doc (Suc index) es (insert sel processedInputs)
                  (allAuthInputs @ [input])))"

definition passwordDescriptor :: "auth_input \<Rightarrow> password_input" where
  "passwordDescriptor input =
     \<lparr>pw_selector = ai_selector input, pw_name = ai_name input, pw_id = ai_id input,
      pw_placeholder = ai_placeholder input, pw_type = ai_type input\<rparr>"

definition otherDescriptor :: "auth_input \<Rightarrow> other_input" where
  "otherDescriptor input =
     \<lparr>oi_type = (case ai_id input of Some i \<Rightarrow> i
                 | None \<Rightarrow> (case ai_type input of Some t \<Rightarrow> t | None \<Rightarrow> ''text'')),
      oi_name = ai_name input, oi_id = ai_id input, oi_placeholder = ai_placeholder input\<rparr>"

text \<open>The loop \<^verbatim>\<open>allAuthInputs.forEach(input => ...)\<close> that fills the two lists.\<close>

fun categorize :: "document \<Rightarrow> auth_input list \<Rightarrow> AuthForm \<Rightarrow> AuthForm" where
  "categorize doc [] authForm = authForm"
| "categorize doc (input # rest) authForm =
     (if attr doc (ai_element input) ''type'' = Some ''password''
      then categorize doc rest
             (authForm\<lparr>passwordInputs := passwordInputs authForm @ [passwordDescriptor input]\<rparr>)
      else categorize doc rest
             (authForm\<lparr>otherInputs := otherInputs authForm @ [otherDescriptor input]\<rparr>))"


section \<open>The container locator\<close>

text \<open>Whether an input looks like an email or user name field (the filter of the walk).\<close>

definition emailUsernameShaped :: "document \<Rightarrow> element \<Rightarrow> bool" where
  "emailUsernameShaped doc el =
     (let ty = map_option toLowerCase (attr doc el ''type'');
          name = orElse (map_option toLowerCase (attr doc el ''name'')) [];
          ident = orElse (map_option toLowerCase (attr doc el ''id'')) [];
          placeholder = orElse (map_option toLowerCase (attr doc el ''placeholder'')) [];
          className = orElse (map_option toLowerCase (attr doc el ''class'')) []
      in ty = Some ''email'' \<or>
         (ty = Some ''text'' \<and>
          (includesStr name ''email'' \<or> includesStr name ''username'' \<or> includesStr name ''user'' \<or>
           includesStr ident ''email'' \<or> includesStr ident ''username'' \<or> includesStr ident ''user'' \<or>
           includesStr placeholder ''email'' \<or> includesStr placeholder ''username'' \<or>
           includesStr className ''email'' \<or> includesStr className ''username'')))"

definition hasEmailUsername :: "document \<Rightarrow> element \<Rightarrow> bool" where
  "hasEmailUsername doc p =
     (length (filter (emailUsernameShaped doc) (find_below (isTag ''input'') doc p)) > 0)"

text \<open>The selector \<^verbatim>\<open>input[type="v"]\<close>.\<close>

definition inputOfType :: "engine \<Rightarrow> string \<Rightarrow> document \<Rightarrow> element \<Rightarrow> bool" where
  "inputOfType eng v doc e = (isTag ''input'' doc e \<and> typeIs eng v doc e)"

definition hasPassword :: "engine \<Rightarrow> document \<Rightarrow> element \<Rightarrow> bool" where
  "hasPassword eng doc p = (length (find_below (inputOfType eng ''password'') doc p) > 0)"

text \<open>\<^verbatim>\<open>$parent.find('input').not('input[type="hidden"]')\<close>\<close>

definition nonHiddenInputs :: "engine \<Rightarrow> document \<Rightarrow> element \<Rightarrow> element list" where
  "nonHiddenInputs eng doc p =
     filter (\<lambda>e. \<not> inputOfType eng ''hidden'' doc e) (find_below (isTag ''input'') doc p)"

text \<open>
  What the body of the walk computes for one ancestor: \<^term>\<open>None\<close> when the ancestor is not
  considered, its score otherwise. The two variants differ here and nowhere else in the walk.
\<close>

definition candidateScore_permissive ::
  "engine \<Rightarrow> document \<Rightarrow> element \<Rightarrow> nat option" where
  "candidateScore_permissive eng doc p =
     (if hasEmailUsername doc p \<and> hasPassword eng doc p
      then (let totalInputsInParent = length (nonHiddenInputs eng doc p);
                score = totalInputsInParent
            in Some score)
      else None)"

definition candidateScore_strict ::
  "engine \<Rightarrow> document \<Rightarrow> element \<Rightarrow> nat option" where
  "candidateScore_strict eng doc p =
     (let isTraditionalAuth = (hasEmailUsername doc p \<and> hasPassword eng doc p);
          isMultipartAuth = (hasEmailUsername doc p \<and> \<not> hasPassword eng doc p)
      in if isTraditionalAuth \<or> isMultipartAuth
         then (let totalInputsInParent = length (nonHiddenInputs eng doc p);
                   score = (if isTraditionalAuth then totalInputsInParent + 100
                            else totalInputsInParent)
               in Some score)
         else None)"

definition maxDepth :: nat where
  "maxDepth = 10"

text \<open>\<^verbatim>\<open>$parent.prop('tagName')?.toLowerCase()\<close>\<close>

definition tagNameLower :: "document \<Rightarrow> element \<Rightarrow> string option" where
  "tagNameLower doc p = map_option toLowerCase (map_option toUpperCase (tagOf doc p))"

definition isTopLevel :: "document \<Rightarrow> element \<Rightarrow> bool" where
  "isTopLevel doc p =
     (let tagName = tagNameLower doc p
      in tagName = Some ''body'' \<or> tagName = Some ''html'' \<or> tagName = Some ''head'')"

text \<open>
  The \<^verbatim>\<open>while\<close> loop over the ancestors. Its state is the current ancestor
  (\<^verbatim>\<open>$parent\<close>, empty when there is none), \<^verbatim>\<open>bestParent\<close>, \<^verbatim>\<open>bestParentScore\<close> and
  \<^verbatim>\<open>depth\<close>; it returns \<^verbatim>\<open>bestParent\<close>.
\<close>

function ancestorWalk ::
  "(element \<Rightarrow> nat option) \<Rightarrow> document \<Rightarrow> element option \<Rightarrow> element option \<Rightarrow> nat \<Rightarrow> nat
   \<Rightarrow> element option" where
  "ancestorWalk cand doc par bestParent bestParentScore depth =
     (case par of
        None \<Rightarrow> bestParent
      | Some p \<Rightarrow>
          if \<not> depth < maxDepth then bestParent
          else if isTopLevel doc p then bestParent
          else (case cand p of
                  None \<Rightarrow> ancestorWalk cand doc (parent doc p) bestParent bestParentScore (depth + 1)
                | Some score \<Rightarrow>
                    if score > bestParentScore \<or> bestParent = None
                    then ancestorWalk cand doc (parent doc p) (Some p) score (depth + 1)
                    else ancestorWalk cand doc (parent doc p) bestParent bestParentScore (depth + 1)))"
  by pat_completeness auto
termination
  by (relation "measure (\<lambda>(cand, doc, par, bestParent, bestParentScore, depth). maxDepth - depth)")
     auto

declare ancestorWalk.simps [simp del]

text \<open>\<^verbatim>\<open>bestParent || allAuthInputs[0].element.parent()\<close>\<close>

definition finalParent :: "(element \<Rightarrow> nat option) \<Rightarrow> document \<Rightarrow> element \<Rightarrow> element option" where
  "finalParent cand doc firstAuthInput =
     (case ancestorWalk cand doc (parent doc firstAuthInput) None 0 0 of
        Some best \<Rightarrow> Some best
      | None \<Rightarrow> parent doc firstAuthInput)"

text \<open>
  The block that fills \<^verbatim>\<open>parentElement\<close>, \<^verbatim>\<open>inputCount\<close> and \<^verbatim>\<open>formElement\<close>; it
  serializes the container, twice when the container is a form.
\<close>

definition fillContainer ::
  "(element \<Rightarrow> nat option) \<Rightarrow> engine \<Rightarrow> document \<Rightarrow> auth_input list \<Rightarrow> AuthForm
   \<Rightarrow> js_error + AuthForm" where
  "fillContainer cand eng doc allAuthInputs authForm =
     (if length allAuthInputs > 0
      then andThen (firstElement allAuthInputs) (\<lambda>firstAuthInput.
             case finalParent cand doc firstAuthInput of
               None \<Rightarrow> Inr authForm
             | Some fp \<Rightarrow>
                 andThen (outerHTML eng doc fp) (\<lambda>html.
                   let withParent =
                         authForm\<lparr>parentElement := truthy html,
                                  inputCount := length (nonHiddenInputs eng doc fp)\<rparr>
                   in if isTag ''form'' doc fp
                      then andThen (outerHTML eng doc fp) (\<lambda>formHtml.
                             Inr (withParent\<lparr>formElement := truthy formHtml\<rparr>))
                      else Inr withParent))
      else Inr authForm)"

section \<open>The report builder\<close>

text \<open>\<^verbatim>\<open>self.findIndex(pred)\<close>: \<^term>\<open>None\<close> stands for the result \<open>-1\<close>.\<close>

fun findIndex :: "('a \<Rightarrow> bool) \<Rightarrow> 'a list \<Rightarrow> nat option" where
  "findIndex pred [] = None"
| "findIndex pred (x # xs) = (if pred x then Some 0 else map_option Suc (findIndex pred xs))"

text \<open>
  \<^verbatim>\<open>self.filter((input, index, self) => index === self.findIndex(i => same i input))\<close>
\<close>

definition uniqueInputs :: "('a \<Rightarrow> 'a \<Rightarrow> bool) \<Rightarrow> 'a list \<Rightarrow> 'a list" where
  "uniqueInputs same self =
     map snd (filter (\<lambda>(index, input). Some index = findIndex (\<lambda>i. same i input) self)
                (enumerate 0 self))"

definition samePassword :: "password_input \<Rightarrow> password_input \<Rightarrow> bool" where
  "samePassword i input =
     (pw_id i = pw_id input \<and> pw_name i = pw_name input \<and> pw_type i = pw_type input)"

definition sameOther :: "other_input \<Rightarrow> other_input \<Rightarrow> bool" where
  "sameOther i input =
     (oi_id i = oi_id input \<and> oi_name i = oi_name input \<and> oi_type i = oi_type input)"

definition deduplicate :: "AuthForm \<Rightarrow> AuthForm" where
  "deduplicate authForm =
     authForm\<lparr>passwordInputs := uniqueInputs samePassword (passwordInputs authForm),
              otherInputs := uniqueInputs sameOther (otherInputs authForm)\<rparr>"

text \<open>The test of the final validation of the strict variant on one entry of \<^verbatim>\<open>otherInputs\<close>.\<close>

definition identityInput :: "other_input \<Rightarrow> bool" where
  "identityInput input =
     (let name = toLowerCase (orElse (oi_name input) []);
          ident = toLowerCase (orElse (oi_id input) []);
          placeholder = toLowerCase (orElse (oi_placeholder input) []);
          ty = toLowerCase (orElse (Some (oi_type input)) [])
      in ty = ''email'' \<or>
         includesStr name ''email'' \<or> includesStr name ''username'' \<or> includesStr name ''user'' \<or>
         includesStr ident ''email'' \<or> includesStr ident ''username'' \<or> includesStr ident ''user'' \<or>
         includesStr placeholder ''email'' \<or> includesStr placeholder ''username'')"

definition emptyPositive :: AuthForm where
  "emptyPositive =
     \<lparr>hasPasswordInput = True, formElement = None, parentElement = None, inputCount = 0,
      passwordInputs = [], otherInputs = []\<rparr>"

section \<open>The two versions of the detector\<close>

text \<open>
  Both take the engine and the tree that \<^verbatim>\<open>cheerio.load(html)\<close> has built, and return the
  report or the error raised. The first version of \<^verbatim>\<open>parseHtmlForAuthForms\<close> (the
  permissive variant):
\<close>

definition authInputs_permissive :: "engine \<Rightarrow> document \<Rightarrow> js_error + element list" where
  "authInputs_permissive eng doc =
     (let allInputs = select (isTag ''input'') doc
      in filterInputs (isAuthInput_permissive eng doc) allInputs)"

definition parseHtmlForAuthForms_permissive :: "engine \<Rightarrow> document \<Rightarrow> js_error + AuthForm" where
  "parseHtmlForAuthForms_permissive eng doc =
     andThen (authInputs_permissive eng doc) (\<lambda>authInputs.
       let hasPasswordInput = (length authInputs > 0)
       in if \<not> hasPasswordInput then Inr negativeResult
          else
            andThen (collectInputs eng doc 0 authInputs {} []) (\<lambda>allAuthInputs.
              let authForm = categorize doc allAuthInputs emptyPositive
              in andThen (fillContainer (candidateScore_permissive eng doc) eng doc
                            allAuthInputs authForm) (\<lambda>withContainer.
                   Inr (deduplicate withContainer))))"

text \<open>The second version (the strict variant), with its final validation:\<close>

definition potentialAuthInputs_strict :: "engine \<Rightarrow> document \<Rightarrow> js_error + element list" where
  "potentialAuthInputs_strict eng doc =
     (let allInputs = select (isTag ''input'') doc
      in filterInputs (isAuthInput_strict eng doc) allInputs)"

definition parseHtmlForAuthForms_strict :: "engine \<Rightarrow> document \<Rightarrow> js_error + AuthForm" where
  "parseHtmlForAuthForms_strict eng doc =
     (let passwordInputs0 = select (inputOfType eng ''password'') doc
      in andThen (potentialAuthInputs_strict eng doc) (\<lambda>potentialAuthInputs.
           let hasPasswordInputs = (length passwordInputs0 > 0);
               hasStrongAuthContext = (length potentialAuthInputs > 0)
           in if \<not> hasPasswordInputs \<and> \<not> hasStrongAuthContext then Inr negativeResult
              else
                (let authInputs = potentialAuthInputs
                 in andThen (collectInputs eng doc 0 authInputs {} []) (\<lambda>allAuthInputs.
                      let authForm = categorize doc allAuthInputs emptyPositive
                      in andThen (fillContainer (candidateScore_strict eng doc) eng doc
                                    allAuthInputs authForm) (\<lambda>withContainer.
                           let deduped = deduplicate withContainer;
                               finalHasPasswordInputs = (length (passwordInputs deduped) > 0);
                               finalHasEmailUsernameInputs =
                                 list_ex identityInput (otherInputs deduped)
                           in if \<not> finalHasPasswordInputs \<and> \<not> finalHasEmailUsernameInputs
                              then Inr negativeResult
                              else Inr deduped)))))"

section \<open>Notions used to state the properties\<close>

text \<open>An input whose \<^verbatim>\<open>type\<close> attribute is literally \<^verbatim>\<open>password\<close> (the test of the classification loop).\<close>

definition passwordTyped :: "document \<Rightarrow> element \<Rightarrow> bool" where
  "passwordTyped doc e = (attr doc e ''type'' = Some ''password'')"

text \<open>
  The entries of \<^verbatim>\<open>allAuthInputs\<close> when no serialization raises: one record per candidate
  whose key was not seen before, with the markup of the input as its selector.
\<close>

fun collected :: "document \<Rightarrow> nat \<Rightarrow> element list \<Rightarrow> string set \<Rightarrow> auth_input list" where
  "collected doc index [] processedInputs = []"
| "collected doc index (e # es) processedInputs =
     (if inputSelector doc index e \<in> processedInputs
      then collected doc (Suc index) es processedInputs
      else inputRecord doc e (markupOf doc e)
             # collected doc (Suc index) es (insert (inputSelector doc index e) processedInputs))"

text \<open>The two lists as the classification loop leaves them, before the final deduplication.\<close>

definition classifiedPasswords :: "document \<Rightarrow> element list \<Rightarrow> password_input list" where
  "classifiedPasswords doc authInputs =
     map passwordDescriptor
       (filter (\<lambda>i. passwordTyped doc (ai_element i)) (collected doc 0 authInputs {}))"

definition classifiedOthers :: "document \<Rightarrow> element list \<Rightarrow> other_input list" where
  "classifiedOthers doc authInputs =
     map otherDescriptor
       (filter (\<lambda>i. \<not> passwordTyped doc (ai_element i)) (collected doc 0 authInputs {}))"

text \<open>
  The report once the container is located and the lists are deduplicated, for a non-empty
  list of candidates and a run in which nothing raises (the strict variant still validates
  it). The container is given as an argument.
\<close>

definition reportWith :: "engine \<Rightarrow> document \<Rightarrow> element option \<Rightarrow> element list \<Rightarrow> AuthForm" where
  "reportWith eng doc container authInputs =
     \<lparr>hasPasswordInput = True,
      formElement = (case container of
                       None \<Rightarrow> None
                     | Some fp \<Rightarrow> if isTag ''form'' doc fp then truthy (markupOf doc fp) else None),
      parentElement = (case container of None \<Rightarrow> None | Some fp \<Rightarrow> truthy (markupOf doc fp)),
      inputCount = (case container of
                      None \<Rightarrow> 0 | Some fp \<Rightarrow> length (nonHiddenInputs eng doc fp)),
      passwordInputs = uniqueInputs samePassword (classifiedPasswords doc authInputs),
      otherInputs = uniqueInputs sameOther (classifiedOthers doc authInputs)\<rparr>"

definition located :: "(element \<Rightarrow> nat option) \<Rightarrow> engine \<Rightarrow> document \<Rightarrow> element list \<Rightarrow> AuthForm" where
  "located cand eng doc authInputs =
     reportWith eng doc (finalParent cand doc (hd authInputs)) authInputs"

text \<open>
  The ancestors for which the body of the walk runs past its \<^verbatim>\<open>break\<close>, innermost first:
  the trace of the loop, started at ancestor \<open>par\<close> with the counter at \<open>depth\<close>.
\<close>

function examined :: "document \<Rightarrow> element option \<Rightarrow> nat \<Rightarrow> element list" where
  "examined doc par depth =
     (case par of
        None \<Rightarrow> []
      | Some p \<Rightarrow>
          if \<not> depth < maxDepth then []
          else if isTopLevel doc p then []
          else p # examined doc (parent doc p) (depth + 1))"
  by pat_completeness auto
termination
  by (relation "measure (\<lambda>(doc, par, depth). maxDepth - depth)") auto

declare examined.simps [simp del]

text \<open>The update of \<^verbatim>\<open>bestParent\<close> and \<^verbatim>\<open>bestParentScore\<close>, run over a list of ancestors.\<close>

fun pickBest :: "(element \<Rightarrow> nat option) \<Rightarrow> element list \<Rightarrow> element option \<Rightarrow> nat \<Rightarrow> element option" where
  "pickBest cand [] bestParent bestParentScore = bestParent"
| "pickBest cand (p # ps) bestParent bestParentScore =
     (case cand p of
        None \<Rightarrow> pickBest cand ps bestParent bestParentScore
      | Some score \<Rightarrow>
          if score > bestParentScore \<or> bestParent = None
          then pickBest cand ps (Some p) score
          else pickBest cand ps bestParent bestParentScore)"

text \<open>The ancestor element \<open>k\<close> levels above an element (\<open>k = 1\<close>: its parent).\<close>

fun nthAncestor :: "document \<Rightarrow> element \<Rightarrow> nat \<Rightarrow> element option" where
  "nthAncestor doc e 0 = Some e"
| "nthAncestor doc e (Suc k) =
     (case parent doc e of None \<Rightarrow> None | Some p \<Rightarrow> nthAncestor doc p k)"

definition isElement :: "document \<Rightarrow> element \<Rightarrow> bool" where
  "isElement doc e = (tagOf doc e \<noteq> None)"

text \<open>
  The identity criterion in the specification's words: the type is \<^verbatim>\<open>email\<close>, or the name,
  the id or the placeholder contains \<^verbatim>\<open>email\<close>, \<^verbatim>\<open>username\<close> or \<^verbatim>\<open>user\<close>.
\<close>

definition specIdentityInput :: "other_input \<Rightarrow> bool" where
  "specIdentityInput input =
     (toLowerCase (oi_type input) = ''email'' \<or>
      list_ex (\<lambda>field. list_ex (\<lambda>keyword. includesStr (toLowerCase (orElse field [])) keyword)
                        [''email'', ''username'', ''user''])
        [oi_name input, oi_id input, oi_placeholder input])"

text \<open>
  The count of non-hidden input descendants in the specification's words: the nodes below
  the ancestor that are \<^verbatim>\<open>input\<close> elements and do not carry a \<^verbatim>\<open>type\<close> attribute that
  the selector engine takes for \<^verbatim>\<open>hidden\<close>.
\<close>

definition specNonHiddenInputCount :: "engine \<Rightarrow> document \<Rightarrow> element \<Rightarrow> nat" where
  "specNonHiddenInputCount eng doc p =
     (case nodeAt doc p of
        None \<Rightarrow> 0
      | Some n \<Rightarrow>
          length (filter (\<lambda>q. case nodeAt doc (p @ q) of
                                 Some (Element t as cs) \<Rightarrow>
                                   t = ''input'' \<and>
                                   (case map_of as ''type'' of
                                      None \<Rightarrow> True
                                    | Some w \<Rightarrow> \<not> typeMatches eng ''hidden'' w)
                               | _ \<Rightarrow> False)
                    (below n)))"

text \<open>The number of levels of a page: the height of its highest tree.\<close>

definition depthOf :: "document \<Rightarrow> nat" where
  "depthOf doc = foldr max (map height doc) 0"

section \<open>Example engines and documents\<close>

text \<open>
  An engine that compares attribute values exactly and walks subtrees of up to \<open>n\<close> levels.
\<close>

definition engineOfDepth :: "nat \<Rightarrow> engine" where
  "engineOfDepth n = \<lparr>typeMatches = (=), textDepth = n, markupDepth = n\<rparr>"

definition plain :: engine where
  "plain = engineOfDepth 64"

text \<open>The tree the loader builds around the content of a page.\<close>

definition page :: "node list \<Rightarrow> document" where
  "page body = [Element ''html'' [] [Element ''head'' [] [], Element ''body'' [] body]]"

text \<open>\<^verbatim>\<open><form><input type="email" name="e"><input type="password" name="p"></form>\<close>\<close>

definition loginPage :: document where
  "loginPage = page [Element ''form'' []
      [Element ''input'' [(''type'', ''email''), (''name'', ''e'')] [],
       Element ''input'' [(''type'', ''password''), (''name'', ''p'')] []]]"

text \<open>The same form inside a \<^verbatim>\<open>div\<close> inside a \<^verbatim>\<open>section\<close>.\<close>

definition nestedLogin :: document where
  "nestedLogin = page [Element ''section'' [] [Element ''div'' [] [Element ''form'' []
      [Element ''input'' [(''type'', ''email''), (''name'', ''e'')] [],
       Element ''input'' [(''type'', ''password''), (''name'', ''p'')] []]]]]"

text \<open>
  A form whose two credential inputs sit in a \<^verbatim>\<open>div\<close> and which holds a third input
  beside that \<^verbatim>\<open>div\<close>:
  \<^verbatim>\<open><form><div><input type="email" name="e"><input type="password" name="p"></div><input type="text" name="code"></form>\<close>
\<close>

definition widerForm :: document where
  "widerForm = page [Element ''form'' []
      [Element ''div'' []
         [Element ''input'' [(''type'', ''email''), (''name'', ''e'')] [],
          Element ''input'' [(''type'', ''password''), (''name'', ''p'')] []],
       Element ''input'' [(''type'', ''text''), (''name'', ''code'')] []]]"

text \<open>
  The login form with a hidden input:
  \<^verbatim>\<open><form><input type="hidden" name="csrf" value="t"><input type="email" name="e"><input type="password" name="p"></form>\<close>
\<close>

definition hiddenLogin :: document where
  "hiddenLogin = page [Element ''form'' []
      [Element ''input'' [(''type'', ''hidden''), (''name'', ''csrf''), (''value'', ''t'')] [],
       Element ''input'' [(''type'', ''email''), (''name'', ''e'')] [],
       Element ''input'' [(''type'', ''password''), (''name'', ''p'')] []]]"

text \<open>\<^verbatim>\<open><input type="password">\<close> directly in the body.\<close>

definition barePassword :: document where
  "barePassword = page [Element ''input'' [(''type'', ''password'')] []]"

text \<open>\<^verbatim>\<open><div><template><input type="password" name="p"></template></div>\<close>\<close>

definition templatePassword :: document where
  "templatePassword = page [Element ''div'' []
      [Element ''template'' []
         [Fragment [Element ''input'' [(''type'', ''password''), (''name'', ''p'')] []]]]]"

text \<open>\<^verbatim>\<open><div><input type="password" id="secret"><input type="password" name="secret"></div>\<close>\<close>

definition clashingPasswords :: document where
  "clashingPasswords = page [Element ''div'' []
      [Element ''input'' [(''type'', ''password''), (''id'', ''secret'')] [],
       Element ''input'' [(''type'', ''password''), (''name'', ''secret'')] []]]"

text \<open>
  A login box whose first input has the odd type \<^verbatim>\<open>password[id="zz\<close>, the id \<^verbatim>\<open>q\<close>
  and the class \<^verbatim>\<open>login\<close>, and whose second input has the type \<^verbatim>\<open>password\<close> and
  the id \<^verbatim>\<open>zz[id="q\<close>.
\<close>

definition shadowedPassword :: document where
  "shadowedPassword = page [Element ''div'' []
      [Text ''Login'',
       Element ''input'' [(''type'', ''password[id=\"zz''), (''id'', ''q''), (''class'', ''login'')] [],
       Element ''input'' [(''type'', ''password''), (''id'', ''zz[id=\"q'')] [],
       Element ''button'' [] [Text ''Login'']]]"

text \<open>
  \<^verbatim>\<open><div><input type="password" id="password" name="user"><input type="text" id="password" name="user"></div>\<close>
\<close>

definition sameTriple :: document where
  "sameTriple = page [Element ''div'' []
      [Element ''input'' [(''type'', ''password''), (''id'', ''password''), (''name'', ''user'')] [],
       Element ''input'' [(''type'', ''text''), (''id'', ''password''), (''name'', ''user'')] []]]"

text \<open>\<^verbatim>\<open><div>Login<input type="text" name="q"></div>\<close>\<close>

definition searchNearLogin :: document where
  "searchNearLogin = page [Element ''div'' []
      [Text ''Login'', Element ''input'' [(''type'', ''text''), (''name'', ''q'')] []]]"


text \<open>\<^verbatim>\<open><div><input type="text" id="user" name="login"></div>\<close>\<close>

definition userField :: document where
  "userField = page [Element ''div'' []
      [Element ''input'' [(''type'', ''text''), (''id'', ''user''), (''name'', ''login'')] []]]"

text \<open>\<^verbatim>\<open><div><input type="email" id="" name="user"></div>\<close>\<close>

definition emptyIdEmail :: document where
  "emptyIdEmail = page [Element ''div'' []
      [Element ''input'' [(''type'', ''email''), (''id'', ''''), (''name'', ''user'')] []]]"

text \<open>
  \<^verbatim>\<open><div><input type="password"><input type="password"><input type="password" name="again"><input type="email" class="e"><input type="email" class="e"></div>\<close>
\<close>

definition repeatedInputs :: document where
  "repeatedInputs = page [Element ''div'' []
      [Element ''input'' [(''type'', ''password'')] [],
       Element ''input'' [(''type'', ''password'')] [],
       Element ''input'' [(''type'', ''password''), (''name'', ''again'')] [],
       Element ''input'' [(''type'', ''email''), (''class'', ''e'')] [],
       Element ''input'' [(''type'', ''email''), (''class'', ''e'')] []]]"

text \<open>
  A form whose password input lies under eleven nested \<^verbatim>\<open>div\<close>s and whose email input
  is a child of the form: the form is the twelfth ancestor of the password input.
\<close>

fun nest :: "nat \<Rightarrow> node \<Rightarrow> node" where
  "nest 0 n = n"
| "nest (Suc k) n = Element ''div'' [] [nest k n]"

definition deepLogin :: document where
  "deepLogin = page [Element ''form'' []
      [nest 11 (Element ''input'' [(''type'', ''password''), (''name'', ''p'')] []),
       Element ''input'' [(''type'', ''email''), (''name'', ''e'')] []]]"

text \<open>Its password input, fifteen levels below the document root.\<close>

definition deepPassword :: element where
  "deepPassword = [0, 1, 0, 0, 0, 0, 0, 0, 0, 0, 0, 0, 0, 0, 0]"

text \<open>
  A password input beside \<open>k\<close> nested \<^verbatim>\<open>div\<close>s:
  \<^verbatim>\<open><div><input type="password"><div><div>...</div></div></div>\<close>
\<close>

definition deepSibling :: "nat \<Rightarrow> document" where
  "deepSibling k = page [Element ''div'' []
      [Element ''input'' [(''type'', ''password'')] [], nest k (Text [])]]"

section \<open>Lemmas\<close>

subsection \<open>The deduplicating filter\<close>

lemma findIndex_Some_iff:
  "findIndex P xs = Some i \<longleftrightarrow> i < length xs \<and> P (xs ! i) \<and> (\<forall>j<i. \<not> P (xs ! j))"
proof (induction xs arbitrary: i)
  case Nil
  then show ?case by simp
next
  case (Cons x xs)
  show ?case
  proof (cases "P x")
    case True
    then show ?thesis by (cases i) auto
  next
    case False
    show ?thesis
    proof (cases i)
      case 0
      with False show ?thesis by auto
    next
      case (Suc k)
      have "(\<forall>j<Suc k. \<not> P ((x # xs) ! j)) \<longleftrightarrow> (\<forall>j<k. \<not> P (xs ! j))"
        using False by (auto simp: less_Suc_eq_0_disj)
      with False Suc Cons.IH [of k] show ?thesis by auto
    qed
  qed
qed

lemma Some_findIndex_iff:
  "Some i = findIndex P xs \<longleftrightarrow> i < length xs \<and> P (xs ! i) \<and> (\<forall>j<i. \<not> P (xs ! j))"
  using findIndex_Some_iff [of P xs i] by (simp add: eq_commute [of "Some i"])

lemma uniqueInputs_nths:
  "uniqueInputs same xs =
     map ((!) xs) (filter (\<lambda>i. Some i = findIndex (\<lambda>y. same y (xs ! i)) xs) [0..<length xs])"
proof -
  have "enumerate 0 xs = map (\<lambda>i. (i, xs ! i)) [0..<length xs]"
    by (rule nth_equalityI) (simp_all add: nth_enumerate_eq)
  then show ?thesis
    by (simp add: uniqueInputs_def filter_map comp_def)
qed


lemma mem_uniqueInputs_iff:
  "x \<in> set (uniqueInputs same xs) \<longleftrightarrow>
     (\<exists>i<length xs. xs ! i = x \<and> same x x \<and> (\<forall>j<i. \<not> same (xs ! j) x))"
  by (auto simp: uniqueInputs_nths Some_findIndex_iff)

lemma subseq_uniqueInputs: "subseq (uniqueInputs same xs) xs"
proof -
  have "subseq (map snd (filter (\<lambda>(index, input). Some index = findIndex (\<lambda>i. same i input) xs)
                  (enumerate 0 xs))) (map snd (enumerate 0 xs))"
    by (intro subseq_map subseq_filter_left)
  then show ?thesis by (simp add: uniqueInputs_def)
qed

lemma distinct_key_uniqueInputs:
  assumes "\<And>a b. same a b \<longleftrightarrow> key a = key b"
  shows "distinct (map key (uniqueInputs same xs))"
proof -
  let ?keep = "filter (\<lambda>i. Some i = findIndex (\<lambda>y. same y (xs ! i)) xs) [0..<length xs]"
  have "inj_on (\<lambda>i. key (xs ! i)) (set ?keep)"
  proof (rule inj_onI)
    fix i j
    assume i: "i \<in> set ?keep" and j: "j \<in> set ?keep" and eq: "key (xs ! i) = key (xs ! j)"
    from i have fi: "\<forall>k<i. \<not> same (xs ! k) (xs ! i)" by (simp add: Some_findIndex_iff)
    from j have fj: "\<forall>k<j. \<not> same (xs ! k) (xs ! j)" by (simp add: Some_findIndex_iff)
    show "i = j"
    proof (rule ccontr)
      assume "i \<noteq> j"
      then consider "i < j" | "j < i" by linarith
      then show False
      proof cases
        case 1
        with fj eq show False by (auto simp: assms)
      next
        case 2
        with fi eq show False by (auto simp: assms)
      qed
    qed
  qed
  then have "distinct (map (\<lambda>i. key (xs ! i)) ?keep)"
    by (simp add: distinct_map)
  then show ?thesis by (simp add: uniqueInputs_nths comp_def)
qed

lemma first_kept_uniqueInputs:
  assumes refl: "\<And>a. same a a" and trans': "\<And>a b c. same a b \<Longrightarrow> same b c \<Longrightarrow> same a c"
    and "x \<in> set xs"
  shows "\<exists>y \<in> set (uniqueInputs same xs). same y x"
proof -
  let ?Q = "\<lambda>k. k < length xs \<and> same (xs ! k) x"
  from assms(3) obtain i where "i < length xs" "xs ! i = x" by (auto simp: in_set_conv_nth)
  then have "?Q i" using refl by auto
  then have "?Q (LEAST k. ?Q k)" by (rule LeastI)
  moreover have "\<forall>j<(LEAST k. ?Q k). \<not> ?Q j" using not_less_Least by blast
  ultimately obtain k where k: "k < length xs" "same (xs ! k) x" "\<forall>j<k. \<not> ?Q j" by blast
  have "\<forall>j<k. \<not> same (xs ! j) (xs ! k)"
  proof (intro allI impI notI)
    fix j assume "j < k" "same (xs ! j) (xs ! k)"
    then have "same (xs ! j) x" using k(2) trans' by blast
    with \<open>j < k\<close> k show False by auto
  qed
  with k refl have "xs ! k \<in> set (uniqueInputs same xs)"
    by (auto simp: mem_uniqueInputs_iff)
  with k show ?thesis by blast
qed


subsection \<open>The classification loop\<close>

lemma categorize_eq:
  "categorize doc xs af =
     af\<lparr>passwordInputs := passwordInputs af @
            map passwordDescriptor (filter (\<lambda>i. passwordTyped doc (ai_element i)) xs),
        otherInputs := otherInputs af @
            map otherDescriptor (filter (\<lambda>i. \<not> passwordTyped doc (ai_element i)) xs)\<rparr>"
  by (induction xs arbitrary: af) (simp_all add: passwordTyped_def)

lemma categorize_fields [simp]:
  "hasPasswordInput (categorize doc xs af) = hasPasswordInput af"
  "formElement (categorize doc xs af) = formElement af"
  "parentElement (categorize doc xs af) = parentElement af"
  "inputCount (categorize doc xs af) = inputCount af"
  by (simp_all add: categorize_eq)

subsection \<open>Calls that may raise\<close>

lemma andThen_Inr_iff: "andThen x f = Inr r \<longleftrightarrow> (\<exists>v. x = Inr v \<and> f v = Inr r)"
  by (cases x) (simp_all add: andThen_def)

lemma andThen_Inr [simp]: "andThen (Inr v) f = f v"
  by (simp add: andThen_def)

lemma andThen_Inl [simp]: "andThen (Inl err) f = Inl err"
  by (simp add: andThen_def)

lemma outerHTML_Inr: "outerHTML eng doc e = Inr v \<Longrightarrow> v = markupOf doc e"
  by (simp add: outerHTML_def split: if_splits)

lemma outerHTML_cases:
  "outerHTML eng doc e = Inl RangeError \<or> outerHTML eng doc e = Inr (markupOf doc e)"
  by (simp add: outerHTML_def)

lemma outerHTML_tooDeep: "tooDeep (markupDepth eng) doc e \<Longrightarrow> outerHTML eng doc e = Inl RangeError"
  by (simp add: outerHTML_def)

lemma authInputOf_Inr: "authInputOf eng doc e = Inr x \<Longrightarrow> x = inputRecord doc e (markupOf doc e)"
  by (auto simp: authInputOf_def andThen_Inr_iff dest: outerHTML_Inr)

lemma filterInputs_Inr:
  "filterInputs test es = Inr cs \<Longrightarrow> cs = filter (\<lambda>e. test e = Inr True) es"
proof (induction es arbitrary: cs)
  case Nil
  then show ?case by simp
next
  case (Cons e es)
  from Cons.prems obtain keep rest where
    k: "test e = Inr keep" and r: "filterInputs test es = Inr rest"
    and cs: "cs = (if keep then e # rest else rest)"
    by (auto split: sum.splits)
  from Cons.IH [OF r] k cs show ?case by auto
qed

lemma filterInputs_subset: "filterInputs test es = Inr cs \<Longrightarrow> set cs \<subseteq> set es"
  by (auto dest: filterInputs_Inr)

lemma filterInputs_keeps:
  "filterInputs test es = Inr cs \<Longrightarrow> e \<in> set es \<Longrightarrow> test e = Inr True \<Longrightarrow> e \<in> set cs"
  by (auto dest: filterInputs_Inr)

subsection \<open>The collecting loop\<close>

lemma collectInputs_Inr:
  "collectInputs eng doc i es P acc = Inr xs \<Longrightarrow> xs = acc @ collected doc i es P"
proof (induction es arbitrary: i P acc)
  case Nil
  then show ?case by simp
next
  case (Cons e es)
  show ?case
  proof (cases "inputSelector doc i e \<in> P")
    case True
    with Cons.prems have "collectInputs eng doc (Suc i) es P acc = Inr xs" by simp
    from Cons.IH [OF this] True show ?thesis by simp
  next
    case False
    with Cons.prems obtain x where x: "authInputOf eng doc e = Inr x"
      and run: "collectInputs eng doc (Suc i) es (insert (inputSelector doc i e) P) (acc @ [x]) = Inr xs"
      by (auto simp: Let_def split: sum.splits)
    from Cons.IH [OF run] authInputOf_Inr [OF x] False show ?thesis by simp
  qed
qed

lemma collectInputs_error:
  "collectInputs eng doc i es P acc = Inl err \<Longrightarrow> err = RangeError"
proof (induction es arbitrary: i P acc)
  case Nil
  then show ?case by simp
next
  case (Cons e es)
  show ?case
  proof (cases "inputSelector doc i e \<in> P")
    case True
    with Cons.prems Cons.IH show ?thesis by simp
  next
    case False
    show ?thesis
    proof (cases "authInputOf eng doc e")
      case (Inl a)
      with False Cons.prems have "err = a" by (simp add: Let_def)
      moreover from Inl have "a = RangeError"
        using outerHTML_cases [of eng doc e] by (auto simp: authInputOf_def)
      ultimately show ?thesis by simp
    next
      case (Inr x)
      with False Cons.prems Cons.IH show ?thesis by (simp add: Let_def)
    qed
  qed
qed

lemma ai_element_inputRecord [simp]: "ai_element (inputRecord doc e html) = e"
  by (simp add: inputRecord_def)

lemma collected_source:
  "x \<in> set (collected doc i es P) \<Longrightarrow> \<exists>e\<in>set es. x = inputRecord doc e (markupOf doc e)"
  by (induction es arbitrary: i P) (auto split: if_splits)

lemma collected_keeps:
  assumes "k < length es"
    and "inputSelector doc (i + k) (es ! k) \<notin> P"
    and "\<forall>j<k. inputSelector doc (i + j) (es ! j) \<noteq> inputSelector doc (i + k) (es ! k)"
  shows "inputRecord doc (es ! k) (markupOf doc (es ! k)) \<in> set (collected doc i es P)"
  using assms
proof (induction es arbitrary: i k P)
  case Nil
  then show ?case by simp
next
  case (Cons e es)
  show ?case
  proof (cases k)
    case 0
    with Cons.prems show ?thesis by simp
  next
    case (Suc m)
    from Cons.prems Suc have m: "m < length es" by simp
    from Cons.prems Suc have notP: "inputSelector doc (Suc i + m) (es ! m) \<notin> P" by simp
    from Cons.prems(3) Suc have ne0: "inputSelector doc i e \<noteq> inputSelector doc (Suc i + m) (es ! m)"
      by (auto dest: spec [of _ 0])
    have earlier: "\<forall>j<m. inputSelector doc (Suc i + j) (es ! j) \<noteq> inputSelector doc (Suc i + m) (es ! m)"
    proof (intro allI impI)
      fix j assume "j < m"
      then have "Suc j < k" using Suc by simp
      with Cons.prems(3) have "inputSelector doc (i + Suc j) ((e # es) ! Suc j)
          \<noteq> inputSelector doc (i + k) ((e # es) ! k)" by blast
      then show "inputSelector doc (Suc i + j) (es ! j) \<noteq> inputSelector doc (Suc i + m) (es ! m)"
        using Suc by simp
    qed
    have notP': "inputSelector doc (Suc i + m) (es ! m) \<notin> insert (inputSelector doc i e) P"
      using notP ne0 by auto
    show ?thesis
      using Cons.IH [OF m notP earlier] Cons.IH [OF m notP' earlier] Suc by simp
  qed
qed

lemma collected_first:
  "collected doc i (e # es) {} =
     inputRecord doc e (markupOf doc e) # collected doc (Suc i) es {inputSelector doc i e}"
  by simp

subsection \<open>The container block\<close>

lemma firstElement_Cons [simp]: "firstElement (x # xs) = Inr (ai_element x)"
  by (simp add: firstElement_def)

lemma fillContainer_Nil [simp]: "fillContainer cand eng doc [] af = Inr af"
  by (simp add: fillContainer_def)

lemma fillContainer_Inr:
  assumes "fillContainer cand eng doc (x # xs) af = Inr af'"
  shows "af' = (case finalParent cand doc (ai_element x) of
            None \<Rightarrow> af
          | Some fp \<Rightarrow>
              af\<lparr>parentElement := truthy (markupOf doc fp),
                 inputCount := length (nonHiddenInputs eng doc fp),
                 formElement := (if isTag ''form'' doc fp then truthy (markupOf doc fp)
                                 else formElement af)\<rparr>)"
proof (cases "finalParent cand doc (ai_element x)")
  case None
  with assms show ?thesis by (simp add: fillContainer_def)
next
  case (Some fp)
  from outerHTML_cases [of eng doc fp] show ?thesis
  proof
    assume "outerHTML eng doc fp = Inl RangeError"
    with assms Some show ?thesis by (simp add: fillContainer_def)
  next
    assume "outerHTML eng doc fp = Inr (markupOf doc fp)"
    with assms Some show ?thesis by (auto simp: fillContainer_def Let_def split: if_splits)
  qed
qed

lemma fillContainer_tooDeep:
  assumes "finalParent cand doc (ai_element x) = Some fp" and "tooDeep (markupDepth eng) doc fp"
  shows "fillContainer cand eng doc (x # xs) af = Inl RangeError"
  using assms by (simp add: fillContainer_def outerHTML_tooDeep)

lemma fillContainer_error:
  "fillContainer cand eng doc xs af = Inl err \<Longrightarrow> err = RangeError"
proof (cases xs)
  case Nil
  then show "fillContainer cand eng doc xs af = Inl err \<Longrightarrow> err = RangeError" by simp
next
  case (Cons x ys)
  assume run: "fillContainer cand eng doc xs af = Inl err"
  show "err = RangeError"
  proof (cases "finalParent cand doc (ai_element x)")
    case None
    with run Cons show ?thesis by (simp add: fillContainer_def)
  next
    case (Some fp)
    with run Cons outerHTML_cases [of eng doc fp] show ?thesis
      by (auto simp: fillContainer_def Let_def split: if_splits)
  qed
qed

subsection \<open>What the two versions return\<close>

lemma pipeline_located:
  assumes "cs \<noteq> []"
    and collect: "collectInputs eng doc 0 cs {} [] = Inr all"
    and fill: "fillContainer cand eng doc all (categorize doc all emptyPositive) = Inr af"
  shows "deduplicate af = located cand eng doc cs"
proof -
  from assms(1) obtain e es where cs: "cs = e # es" by (cases cs) auto
  from collectInputs_Inr [OF collect] have all: "all = collected doc 0 cs {}" by simp
  then have all': "all = inputRecord doc e (markupOf doc e) # collected doc (Suc 0) es {inputSelector doc 0 e}"
    by (simp add: cs)
  from fill have "af = (case finalParent cand doc e of
            None \<Rightarrow> categorize doc all emptyPositive
          | Some fp \<Rightarrow>
              (categorize doc all emptyPositive)\<lparr>parentElement := truthy (markupOf doc fp),
                 inputCount := length (nonHiddenInputs eng doc fp),
                 formElement := (if isTag ''form'' doc fp then truthy (markupOf doc fp)
                                 else formElement (categorize doc all emptyPositive))\<rparr>)"
    by (subst (asm) all') (auto dest: fillContainer_Inr)
  moreover have "hd cs = e" by (simp add: cs)
  ultimately show ?thesis
    unfolding located_def reportWith_def deduplicate_def classifiedPasswords_def
      classifiedOthers_def all [symmetric]
    by (simp add: categorize_eq emptyPositive_def split: option.splits)
qed

lemma permissive_Inr:
  assumes "parseHtmlForAuthForms_permissive eng doc = Inr r"
  shows "\<exists>cs. authInputs_permissive eng doc = Inr cs \<and>
              r = (if cs = [] then negativeResult
                   else located (candidateScore_permissive eng doc) eng doc cs)"
proof -
  from assms obtain cs where cs: "authInputs_permissive eng doc = Inr cs"
    by (auto simp: parseHtmlForAuthForms_permissive_def andThen_Inr_iff)
  show ?thesis
  proof (cases "cs = []")
    case True
    with assms cs show ?thesis by (simp add: parseHtmlForAuthForms_permissive_def)
  next
    case False
    with assms cs obtain all af where
      "collectInputs eng doc 0 cs {} [] = Inr all"
      "fillContainer (candidateScore_permissive eng doc) eng doc all
         (categorize doc all emptyPositive) = Inr af"
      "r = deduplicate af"
      by (auto simp: parseHtmlForAuthForms_permissive_def andThen_Inr_iff Let_def)
    with pipeline_located [OF False, of eng doc all "candidateScore_permissive eng doc" af] cs False
    show ?thesis by simp
  qed
qed

lemma strict_Inr:
  assumes "parseHtmlForAuthForms_strict eng doc = Inr r"
  shows "\<exists>cs. potentialAuthInputs_strict eng doc = Inr cs \<and>
              r = (if cs = [] then negativeResult
                   else (let deduped = located (candidateScore_strict eng doc) eng doc cs
                         in if passwordInputs deduped = [] \<and>
                               \<not> list_ex identityInput (otherInputs deduped)
                            then negativeResult else deduped))"
proof -
  from assms obtain cs where cs: "potentialAuthInputs_strict eng doc = Inr cs"
    by (auto simp: parseHtmlForAuthForms_strict_def andThen_Inr_iff Let_def)
  show ?thesis
  proof (cases "cs = []")
    case True
    with assms cs show ?thesis
      by (auto simp: parseHtmlForAuthForms_strict_def Let_def deduplicate_def uniqueInputs_def
          emptyPositive_def split: if_splits)
  next
    case False
    with assms cs obtain all af where
      c: "collectInputs eng doc 0 cs {} [] = Inr all"
      and f: "fillContainer (candidateScore_strict eng doc) eng doc all
         (categorize doc all emptyPositive) = Inr af"
      and r: "r = (if passwordInputs (deduplicate af) = [] \<and>
                      \<not> list_ex identityInput (otherInputs (deduplicate af))
                   then negativeResult else deduplicate af)"
      by (auto simp: parseHtmlForAuthForms_strict_def andThen_Inr_iff Let_def split: if_splits)
    from pipeline_located [OF False c f] r cs False
    show ?thesis by (simp add: Let_def)
  qed
qed

subsection \<open>The only error is the exhausted stack\<close>

lemma textOf_error: "textOf eng doc es = Inl err \<Longrightarrow> err = RangeError"
  by (simp add: textOf_def split: if_splits)

lemma context_permissive_error:
  "hasAuthenticationContext_permissive eng doc e = Inl err \<Longrightarrow> err = RangeError"
  by (auto simp: hasAuthenticationContext_permissive_def andThen_def Let_def
      split: sum.splits if_splits dest: textOf_error)

lemma context_strict_error:
  "hasAuthenticationContext_strict eng doc e = Inl err \<Longrightarrow> err = RangeError"
  by (auto simp: hasAuthenticationContext_strict_def andThen_def Let_def
      split: sum.splits if_splits dest: textOf_error)

lemma filterInputs_error:
  assumes "\<And>e err. test e = Inl err \<Longrightarrow> err = RangeError"
  shows "filterInputs test es = Inl err \<Longrightarrow> err = RangeError"
  by (induction es arbitrary: err) (auto split: sum.splits dest: assms)

lemma authInputs_permissive_error:
  "authInputs_permissive eng doc = Inl err \<Longrightarrow> err = RangeError"
  unfolding authInputs_permissive_def Let_def
  by (rule filterInputs_error [where test = "isAuthInput_permissive eng doc"])
     (auto simp: isAuthInput_permissive_def andThen_def Let_def
       split: sum.splits if_splits dest: context_permissive_error)

lemma potentialAuthInputs_strict_error:
  "potentialAuthInputs_strict eng doc = Inl err \<Longrightarrow> err = RangeError"
  unfolding potentialAuthInputs_strict_def Let_def
  by (rule filterInputs_error [where test = "isAuthInput_strict eng doc"])
     (auto simp: isAuthInput_strict_def andThen_def Let_def
       split: sum.splits if_splits dest: context_strict_error)

lemma permissive_error:
  "parseHtmlForAuthForms_permissive eng doc = Inl err \<Longrightarrow> err = RangeError"
  by (auto simp: parseHtmlForAuthForms_permissive_def andThen_def Let_def
      split: sum.splits if_splits
      dest: authInputs_permissive_error collectInputs_error fillContainer_error)

lemma strict_error:
  "parseHtmlForAuthForms_strict eng doc = Inl err \<Longrightarrow> err = RangeError"
  by (auto simp: parseHtmlForAuthForms_strict_def andThen_def Let_def
      split: sum.splits if_splits
      dest: potentialAuthInputs_strict_error collectInputs_error fillContainer_error)

subsection \<open>A container too deep to serialize\<close>

lemma pipeline_tooDeep:
  assumes "cs \<noteq> []" and "finalParent cand doc (hd cs) = Some fp"
    and "tooDeep (markupDepth eng) doc fp"
  shows "andThen (collectInputs eng doc 0 cs {} []) (\<lambda>all.
           andThen (fillContainer cand eng doc all (categorize doc all emptyPositive)) f)
         = Inl RangeError"
proof (cases "collectInputs eng doc 0 cs {} []")
  case (Inl err)
  with collectInputs_error [OF Inl] show ?thesis by simp
next
  case (Inr all)
  from assms(1) obtain e es where cs: "cs = e # es" by (cases cs) auto
  from collectInputs_Inr [OF Inr] cs obtain x xs where all: "all = x # xs" "ai_element x = e"
    by simp
  with assms(2,3) cs have "fillContainer cand eng doc all (categorize doc all emptyPositive)
      = Inl RangeError"
    by (simp add: fillContainer_tooDeep)
  with Inr show ?thesis by simp
qed

subsection \<open>The walk as a choice among the examined ancestors\<close>

lemma ancestorWalk_pickBest:
  "ancestorWalk cand doc par best bs d = pickBest cand (examined doc par d) best bs"
proof (induction cand doc par best bs d rule: ancestorWalk.induct)
  case (1 cand doc par best bs d)
  show ?case
  proof (cases par)
    case None
    then show ?thesis by (simp add: ancestorWalk.simps examined.simps)
  next
    case (Some p)
    show ?thesis
    proof (cases "d < maxDepth \<and> \<not> isTopLevel doc p")
      case False
      with Some show ?thesis
        by (subst ancestorWalk.simps, subst examined.simps) auto
    next
      case True
      then have ex: "examined doc par d = p # examined doc (parent doc p) (d + 1)"
        using Some by (subst examined.simps) simp
      show ?thesis
      proof (cases "cand p")
        case None
        with True Some ex "1.IH"(1) [of p] show ?thesis
          by (subst ancestorWalk.simps) auto
      next
        case (Some score)
        note sc = this
        show ?thesis
        proof (cases "score > bs \<or> best = None")
          case True
          with \<open>d < maxDepth \<and> \<not> isTopLevel doc p\<close> \<open>par = Some p\<close> sc ex
            "1.IH"(2) [of p score] show ?thesis
            by (subst ancestorWalk.simps) auto
        next
          case False
          with \<open>d < maxDepth \<and> \<not> isTopLevel doc p\<close> \<open>par = Some p\<close> sc ex
            "1.IH"(3) [of p score] show ?thesis
            by (subst ancestorWalk.simps) auto
        qed
      qed
    qed
  qed
qed

lemma pickBest_Some:
  "pickBest cand ps (Some b0) bs = r \<Longrightarrow>
     (r = Some b0 \<and> (\<forall>p\<in>set ps. \<forall>t. cand p = Some t \<longrightarrow> t \<le> bs)) \<or>
     (\<exists>pre b post s. ps = pre @ b # post \<and> r = Some b \<and> cand b = Some s \<and> bs < s \<and>
        (\<forall>p\<in>set pre. \<forall>t. cand p = Some t \<longrightarrow> t < s) \<and>
        (\<forall>p\<in>set post. \<forall>t. cand p = Some t \<longrightarrow> t \<le> s))"
proof (induction ps arbitrary: b0 bs)
  case Nil
  then show ?case by simp
next
  case (Cons p ps)
  show ?case
  proof (cases "cand p")
    case None
    with Cons.prems have run: "pickBest cand ps (Some b0) bs = r" by simp
    from Cons.IH [OF run] show ?thesis
    proof (elim disjE exE conjE)
      assume "r = Some b0" "\<forall>p\<in>set ps. \<forall>t. cand p = Some t \<longrightarrow> t \<le> bs"
      with None show ?thesis by auto
    next
      fix pre b post s
      assume h: "ps = pre @ b # post" "r = Some b" "cand b = Some s" "bs < s"
        "\<forall>p\<in>set pre. \<forall>t. cand p = Some t \<longrightarrow> t < s"
        "\<forall>p\<in>set post. \<forall>t. cand p = Some t \<longrightarrow> t \<le> s"
      then have "p # ps = (p # pre) @ b # post" "\<forall>q\<in>set (p # pre). \<forall>t. cand q = Some t \<longrightarrow> t < s"
        using None by auto
      with h show ?thesis by blast
    qed
  next
    case (Some sc)
    show ?thesis
    proof (cases "sc > bs")
      case True
      with Some Cons.prems have run: "pickBest cand ps (Some p) sc = r" by simp
      from Cons.IH [OF run] show ?thesis
      proof (elim disjE exE conjE)
        assume h: "r = Some p" "\<forall>q\<in>set ps. \<forall>t. cand q = Some t \<longrightarrow> t \<le> sc"
        have "p # ps = [] @ p # ps" by simp
        with h Some True show ?thesis by (metis empty_iff empty_set)
      next
        fix pre b post s
        assume h: "ps = pre @ b # post" "r = Some b" "cand b = Some s" "sc < s"
          "\<forall>p\<in>set pre. \<forall>t. cand p = Some t \<longrightarrow> t < s"
          "\<forall>p\<in>set post. \<forall>t. cand p = Some t \<longrightarrow> t \<le> s"
        then have "p # ps = (p # pre) @ b # post"
          "\<forall>q\<in>set (p # pre). \<forall>t. cand q = Some t \<longrightarrow> t < s" "bs < s"
          using Some True by auto
        with h show ?thesis by blast
      qed
    next
      case False
      with Some Cons.prems have run: "pickBest cand ps (Some b0) bs = r" by simp
      from Cons.IH [OF run] show ?thesis
      proof (elim disjE exE conjE)
        assume "r = Some b0" "\<forall>p\<in>set ps. \<forall>t. cand p = Some t \<longrightarrow> t \<le> bs"
        with Some False show ?thesis by auto
      next
        fix pre b post s
        assume h: "ps = pre @ b # post" "r = Some b" "cand b = Some s" "bs < s"
          "\<forall>p\<in>set pre. \<forall>t. cand p = Some t \<longrightarrow> t < s"
          "\<forall>p\<in>set post. \<forall>t. cand p = Some t \<longrightarrow> t \<le> s"
        then have "p # ps = (p # pre) @ b # post"
          "\<forall>q\<in>set (p # pre). \<forall>t. cand q = Some t \<longrightarrow> t < s"
          using Some False by auto
        with h show ?thesis by blast
      qed
    qed
  qed
qed

lemma pickBest_None:
  "pickBest cand ps None bs = r \<Longrightarrow>
     (r = None \<and> (\<forall>p\<in>set ps. cand p = None)) \<or>
     (\<exists>pre b post s. ps = pre @ b # post \<and> r = Some b \<and> cand b = Some s \<and>
        (\<forall>p\<in>set pre. \<forall>t. cand p = Some t \<longrightarrow> t < s) \<and>
        (\<forall>p\<in>set post. \<forall>t. cand p = Some t \<longrightarrow> t \<le> s))"
proof (induction ps)
  case Nil
  then show ?case by simp
next
  case (Cons p ps)
  show ?case
  proof (cases "cand p")
    case None
    with Cons.prems have run: "pickBest cand ps None bs = r" by simp
    from Cons.IH [OF run] show ?thesis
    proof (elim disjE exE conjE)
      assume "r = None" "\<forall>p\<in>set ps. cand p = None"
      with None show ?thesis by auto
    next
      fix pre b post s
      assume h: "ps = pre @ b # post" "r = Some b" "cand b = Some s"
        "\<forall>p\<in>set pre. \<forall>t. cand p = Some t \<longrightarrow> t < s"
        "\<forall>p\<in>set post. \<forall>t. cand p = Some t \<longrightarrow> t \<le> s"
      then have "p # ps = (p # pre) @ b # post" "\<forall>q\<in>set (p # pre). \<forall>t. cand q = Some t \<longrightarrow> t < s"
        using None by auto
      with h show ?thesis by blast
    qed
  next
    case (Some sc)
    with Cons.prems have run: "pickBest cand ps (Some p) sc = r" by simp
    from pickBest_Some [OF run] show ?thesis
    proof (elim disjE exE conjE)
      assume h: "r = Some p" "\<forall>q\<in>set ps. \<forall>t. cand q = Some t \<longrightarrow> t \<le> sc"
      have "p # ps = [] @ p # ps" by simp
      with h Some show ?thesis by (metis empty_iff empty_set)
    next
      fix pre b post s
      assume h: "ps = pre @ b # post" "r = Some b" "cand b = Some s" "sc < s"
        "\<forall>p\<in>set pre. \<forall>t. cand p = Some t \<longrightarrow> t < s"
        "\<forall>p\<in>set post. \<forall>t. cand p = Some t \<longrightarrow> t \<le> s"
      then have "p # ps = (p # pre) @ b # post"
        "\<forall>q\<in>set (p # pre). \<forall>t. cand q = Some t \<longrightarrow> t < s"
        using Some by auto
      with h show ?thesis by blast
    qed
  qed
qed


subsection \<open>Which ancestors the walk examines\<close>

lemma examined_length: "length (examined doc par d) \<le> maxDepth - d"
proof (induction doc par d rule: examined.induct)
  case (1 doc par d)
  show ?case
  proof (cases par)
    case None
    then show ?thesis by (simp add: examined.simps)
  next
    case (Some p)
    show ?thesis
    proof (cases "d < maxDepth \<and> \<not> isTopLevel doc p")
      case True
      with Some "1.IH" [of p] show ?thesis by (subst examined.simps) auto
    next
      case False
      with Some show ?thesis by (subst examined.simps) auto
    qed
  qed
qed

lemma examined_not_top: "p \<in> set (examined doc par d) \<Longrightarrow> \<not> isTopLevel doc p"
proof (induction doc par d rule: examined.induct)
  case (1 doc par d)
  show ?case
  proof (cases par)
    case None
    with "1.prems" show ?thesis by (simp add: examined.simps)
  next
    case (Some q)
    show ?thesis
    proof (cases "d < maxDepth \<and> \<not> isTopLevel doc q")
      case True
      then have "examined doc par d = q # examined doc (parent doc q) (d + 1)"
        using Some by (subst examined.simps) simp
      with "1.prems" "1.IH" [of q] True Some show ?thesis by auto
    next
      case False
      then have "examined doc par d = []" using Some by (subst examined.simps) auto
      with "1.prems" show ?thesis by simp
    qed
  qed
qed

lemma examined_None [simp]: "examined doc None d = []"
  by (subst examined.simps) simp

lemma examined_top [simp]: "isTopLevel doc p \<Longrightarrow> examined doc (Some p) d = []"
  by (subst examined.simps) simp

lemma examined_nth:
  "par = Some q \<Longrightarrow> i < length (examined doc par d) \<Longrightarrow>
     nthAncestor doc q i = Some (examined doc par d ! i)"
proof (induction doc par d arbitrary: q i rule: examined.induct)
  case (1 doc par d)
  show ?case
  proof (cases "d < maxDepth \<and> \<not> isTopLevel doc q")
    case False
    then have "examined doc par d = []" using "1.prems"(1) by (subst examined.simps) auto
    with "1.prems" show ?thesis by simp
  next
    case True
    then have ex: "examined doc par d = q # examined doc (parent doc q) (d + 1)"
      using "1.prems"(1) by (subst examined.simps) simp
    show ?thesis
    proof (cases i)
      case 0
      with ex show ?thesis by simp
    next
      case (Suc k)
      with "1.prems"(2) ex have k: "k < length (examined doc (parent doc q) (d + 1))" by simp
      then have "parent doc q \<noteq> None" by (cases "parent doc q") auto
      then obtain q' where q': "parent doc q = Some q'" by auto
      from "1.IH" [OF "1.prems"(1) _ _ q' k] True
      have "nthAncestor doc q' k = Some (examined doc (parent doc q) (d + 1) ! k)" by simp
      with Suc ex q' show ?thesis by simp
    qed
  qed
qed

lemma examined_ancestor:
  assumes "p \<in> set (examined doc (parent doc e) 0)"
  shows "\<exists>k. 1 \<le> k \<and> k \<le> maxDepth \<and> nthAncestor doc e k = Some p"
proof -
  from assms obtain i where i: "i < length (examined doc (parent doc e) 0)"
    "examined doc (parent doc e) 0 ! i = p" by (auto simp: in_set_conv_nth)
  then have "parent doc e \<noteq> None" by (cases "parent doc e") auto
  then obtain q where q: "parent doc e = Some q" by auto
  from examined_nth [OF q i(1)] i(2) q have "nthAncestor doc e (Suc i) = Some p" by simp
  moreover from i(1) examined_length [of doc "parent doc e" 0] have "Suc i \<le> maxDepth" by simp
  ultimately show ?thesis by (intro exI [of _ "Suc i"]) simp
qed

lemma nthAncestor_take:
  "nthAncestor doc e k = Some p \<Longrightarrow> p = take (length e - k) e \<and> (k = 0 \<or> k < length e)"
proof (induction k arbitrary: e)
  case 0
  then show ?case by simp
next
  case (Suc k)
  from Suc.prems obtain q where q: "parent doc e = Some q" "nthAncestor doc q k = Some p"
    by (auto split: option.splits)
  from q(1) have e: "1 < length e" "q = butlast e" by (auto simp: parent_def split: if_splits)
  then have lq: "length q = length e - 1" by simp
  from Suc.IH [OF q(2)] have p: "p = take (length q - k) q" and k: "k = 0 \<or> k < length q"
    by auto
  have "take (length q - k) q = take (length e - Suc k) e"
    using e lq by (simp add: butlast_conv_take min_def)
  moreover have "Suc k < length e" using k lq e by auto
  ultimately show ?case using p by simp
qed

lemma nthAncestor_inj:
  assumes "nthAncestor doc e k = Some p" "nthAncestor doc e k' = Some p"
  shows "k = k'"
proof -
  from nthAncestor_take [OF assms(1)] nthAncestor_take [OF assms(2)]
  have "length (take (length e - k) e) = length (take (length e - k') e)"
    "k = 0 \<or> k < length e" "k' = 0 \<or> k' < length e" by auto
  then show ?thesis by auto
qed


subsection \<open>Ancestors are elements of the tree\<close>

lemma isElement_parent: "parent doc e = Some p \<Longrightarrow> isElement doc p"
  by (auto simp: parent_def isElement_def split: if_splits)

lemma isElement_nthAncestor:
  "nthAncestor doc e k = Some p \<Longrightarrow> 0 < k \<Longrightarrow> isElement doc p"
proof (induction k arbitrary: e)
  case 0
  then show ?case by simp
next
  case (Suc k)
  from Suc.prems(1) obtain q where q: "parent doc e = Some q" "nthAncestor doc q k = Some p"
    by (auto split: option.splits)
  show ?case
  proof (cases k)
    case 0
    with q isElement_parent [OF q(1)] show ?thesis by simp
  next
    case (Suc m)
    with Suc.IH [OF q(2)] show ?thesis by simp
  qed
qed

lemma markupOf_isElement: "isElement doc e \<Longrightarrow> truthy (markupOf doc e) \<noteq> None"
  by (auto simp: isElement_def tagOf_def markupOf_def truthy_def
      split: option.splits node.splits)

subsection \<open>The fields of a report\<close>

lemma negative_lists [simp]:
  "passwordInputs negativeResult = []" "otherInputs negativeResult = []"
  "\<not> hasPasswordInput negativeResult" "parentElement negativeResult = None"
  by (simp_all add: negativeResult_def)

lemma located_fields [simp]:
  "hasPasswordInput (located cand eng doc cs)"
  "passwordInputs (located cand eng doc cs) = uniqueInputs samePassword (classifiedPasswords doc cs)"
  "otherInputs (located cand eng doc cs) = uniqueInputs sameOther (classifiedOthers doc cs)"
  "parentElement (located cand eng doc cs) =
     (case finalParent cand doc (hd cs) of None \<Rightarrow> None | Some fp \<Rightarrow> truthy (markupOf doc fp))"
  by (simp_all add: located_def reportWith_def)

subsection \<open>Where the entries of the two lists come from\<close>

lemma set_uniqueInputs: "set (uniqueInputs same xs) \<subseteq> set xs"
  by (auto simp: mem_uniqueInputs_iff)

lemma classifiedPasswords_source:
  assumes "d \<in> set (classifiedPasswords doc authInputs)"
  shows "\<exists>e\<in>set authInputs. passwordTyped doc e \<and>
           d = passwordDescriptor (inputRecord doc e (markupOf doc e))"
proof -
  from assms obtain x where x: "x \<in> set (collected doc 0 authInputs {})"
    "passwordTyped doc (ai_element x)" "d = passwordDescriptor x"
    by (auto simp: classifiedPasswords_def)
  from collected_source [OF x(1)] obtain e where
    "e \<in> set authInputs" "x = inputRecord doc e (markupOf doc e)" by auto
  with x show ?thesis by auto
qed

lemma classifiedOthers_source:
  assumes "d \<in> set (classifiedOthers doc authInputs)"
  shows "\<exists>e\<in>set authInputs. \<not> passwordTyped doc e \<and>
           d = otherDescriptor (inputRecord doc e (markupOf doc e))"
proof -
  from assms obtain x where x: "x \<in> set (collected doc 0 authInputs {})"
    "\<not> passwordTyped doc (ai_element x)" "d = otherDescriptor x"
    by (auto simp: classifiedOthers_def)
  from collected_source [OF x(1)] obtain e where
    "e \<in> set authInputs" "x = inputRecord doc e (markupOf doc e)" by auto
  with x show ?thesis by auto
qed

lemma candidates_are_inputs:
  "authInputs_permissive eng doc = Inr cs \<Longrightarrow> set cs \<subseteq> set (select (isTag ''input'') doc)"
  "potentialAuthInputs_strict eng doc = Inr cs \<Longrightarrow> set cs \<subseteq> set (select (isTag ''input'') doc)"
  by (auto simp: authInputs_permissive_def potentialAuthInputs_strict_def
      dest: filterInputs_subset)

text \<open>The candidates behind a report of either version.\<close>

lemma report_lists:
  assumes "parseHtmlForAuthForms_permissive eng doc = Inr r \<or>
           parseHtmlForAuthForms_strict eng doc = Inr r"
  shows "\<exists>cs. (authInputs_permissive eng doc = Inr cs \<or> potentialAuthInputs_strict eng doc = Inr cs) \<and>
          (r = negativeResult \<or>
           (hasPasswordInput r \<and> cs \<noteq> [] \<and>
            passwordInputs r = uniqueInputs samePassword (classifiedPasswords doc cs) \<and>
            otherInputs r = uniqueInputs sameOther (classifiedOthers doc cs)))"
  using assms
proof
  assume "parseHtmlForAuthForms_permissive eng doc = Inr r"
  from permissive_Inr [OF this] show ?thesis by (auto split: if_splits)
next
  assume "parseHtmlForAuthForms_strict eng doc = Inr r"
  from strict_Inr [OF this] show ?thesis by (auto simp: Let_def split: if_splits)
qed

subsection \<open>The kept entries\<close>

lemma find_uniqueInputs:
  "d \<in> set (uniqueInputs same xs) \<Longrightarrow> List.find (\<lambda>x. same x d) xs = Some d"
  by (auto simp: mem_uniqueInputs_iff find_Some_iff)

lemma samePassword_key:
  "samePassword a b \<longleftrightarrow> (pw_id a, pw_name a, pw_type a) = (pw_id b, pw_name b, pw_type b)"
  by (auto simp: samePassword_def)

lemma sameOther_key:
  "sameOther a b \<longleftrightarrow> (oi_id a, oi_name a, oi_type a) = (oi_id b, oi_name b, oi_type b)"
  by (auto simp: sameOther_def)

lemma uniquePasswords_cover:
  "x \<in> set xs \<Longrightarrow> \<exists>d\<in>set (uniqueInputs samePassword xs). samePassword d x"
  by (rule first_kept_uniqueInputs) (auto simp: samePassword_def)

lemma uniqueOthers_cover:
  "x \<in> set xs \<Longrightarrow> \<exists>d\<in>set (uniqueInputs sameOther xs). sameOther d x"
  by (rule first_kept_uniqueInputs) (auto simp: sameOther_def)

subsection \<open>The result of the walk\<close>

lemma walk_result:
  "(ancestorWalk cand doc par None 0 0 = None \<and> (\<forall>p\<in>set (examined doc par 0). cand p = None)) \<or>
   (\<exists>pre b post s. examined doc par 0 = pre @ b # post \<and>
      ancestorWalk cand doc par None 0 0 = Some b \<and> cand b = Some s \<and>
      (\<forall>p\<in>set pre. \<forall>t. cand p = Some t \<longrightarrow> t < s) \<and>
      (\<forall>p\<in>set post. \<forall>t. cand p = Some t \<longrightarrow> t \<le> s))"
  using pickBest_None [of cand "examined doc par 0" 0 "ancestorWalk cand doc par None 0 0"]
  by (simp add: ancestorWalk_pickBest)

lemma walk_Some:
  assumes "ancestorWalk cand doc par None 0 0 = Some b"
  shows "\<exists>pre post s. examined doc par 0 = pre @ b # post \<and> cand b = Some s \<and>
      (\<forall>p\<in>set pre. \<forall>t. cand p = Some t \<longrightarrow> t < s) \<and>
      (\<forall>p\<in>set post. \<forall>t. cand p = Some t \<longrightarrow> t \<le> s)"
  using walk_result [of cand doc par] assms by auto

lemma walk_Some_examined:
  "ancestorWalk cand doc par None 0 0 = Some b \<Longrightarrow> b \<in> set (examined doc par 0) \<and> cand b \<noteq> None"
  using walk_Some [of cand doc par b] by auto





subsection \<open>The container is an ancestor of the first candidate\<close>

lemma parent_nthAncestor: "parent doc e = Some p \<longleftrightarrow> nthAncestor doc e 1 = Some p"
  by (simp split: option.splits)

lemma finalParent_ancestor:
  assumes "finalParent cand doc first = Some c"
  shows "\<exists>k. 1 \<le> k \<and> k \<le> maxDepth \<and> nthAncestor doc first k = Some c"
proof (cases "ancestorWalk cand doc (parent doc first) None 0 0")
  case None
  with assms have "parent doc first = Some c" by (simp add: finalParent_def)
  then have "nthAncestor doc first 1 = Some c" by (simp add: parent_nthAncestor)
  then show ?thesis by (intro exI [of _ 1]) (simp add: maxDepth_def)
next
  case (Some b)
  with assms have "b = c" by (simp add: finalParent_def)
  with Some walk_Some_examined [of cand doc "parent doc first" b]
  have "c \<in> set (examined doc (parent doc first) 0)" by simp
  then show ?thesis by (rule examined_ancestor)
qed

lemma finalParent_markup:
  assumes "finalParent cand doc first = Some c"
  shows "truthy (markupOf doc c) \<noteq> None"
proof -
  from finalParent_ancestor [OF assms] obtain k where "1 \<le> k" "nthAncestor doc first k = Some c"
    by blast
  then have "isElement doc c" using isElement_nthAncestor [of doc first k c] by simp
  then show ?thesis by (rule markupOf_isElement)
qed

lemma finalParent_defined: "parent doc first \<noteq> None \<Longrightarrow> finalParent cand doc first \<noteq> None"
  by (auto simp: finalParent_def split: option.splits)

lemma finalParent_None:
  "parent doc first = None \<Longrightarrow> finalParent cand doc first = None"
  by (simp add: finalParent_def ancestorWalk.simps)

subsection \<open>The walk stops at the top of the page\<close>

lemma walk_top: "isTopLevel doc p \<Longrightarrow> ancestorWalk cand doc (Some p) best score d = best"
  by (subst ancestorWalk.simps) simp

subsection \<open>The final validation\<close>

lemma orElse_Some_empty: "orElse (Some t) [] = t"
  by (simp add: orElse_def truthy_def)

lemma identityInput_spec: "identityInput d \<Longrightarrow> specIdentityInput d"
  by (auto simp: identityInput_def specIdentityInput_def Let_def orElse_Some_empty)

subsection \<open>Password inputs are candidates\<close>

lemma password_is_candidate:
  assumes "e \<in> set (select (isTag ''input'') doc)" and "attr doc e ''type'' = Some ''password''"
  shows "authInputs_permissive eng doc = Inr cs \<Longrightarrow> e \<in> set cs"
    and "potentialAuthInputs_strict eng doc = Inr cs \<Longrightarrow> e \<in> set cs"
  using assms
  by (auto simp: authInputs_permissive_def potentialAuthInputs_strict_def
      isAuthInput_permissive_def isAuthInput_strict_def intro: filterInputs_keeps)

lemma password_kept:
  assumes k: "k < length cs" and pw: "passwordTyped doc (cs ! k)"
    and first: "\<forall>j<k. inputSelector doc j (cs ! j) \<noteq> inputSelector doc k (cs ! k)"
  shows "\<exists>d\<in>set (uniqueInputs samePassword (classifiedPasswords doc cs)).
           pw_id d = truthy (attr doc (cs ! k) ''id'') \<and>
           pw_name d = truthy (attr doc (cs ! k) ''name'') \<and>
           pw_type d = Some ''password''"
proof -
  have "inputRecord doc (cs ! k) (markupOf doc (cs ! k)) \<in> set (collected doc 0 cs {})"
    using collected_keeps [of k cs doc 0 "{}"] k first by simp
  with pw have "passwordDescriptor (inputRecord doc (cs ! k) (markupOf doc (cs ! k)))
      \<in> set (classifiedPasswords doc cs)"
    by (auto simp: classifiedPasswords_def)
  from uniquePasswords_cover [OF this] obtain d where
    d: "d \<in> set (uniqueInputs samePassword (classifiedPasswords doc cs))"
    "samePassword d (passwordDescriptor (inputRecord doc (cs ! k) (markupOf doc (cs ! k))))"
    by blast
  from d(2) pw have "pw_id d = truthy (attr doc (cs ! k) ''id'') \<and>
           pw_name d = truthy (attr doc (cs ! k) ''name'') \<and> pw_type d = Some ''password''"
    by (simp add: samePassword_def passwordDescriptor_def inputRecord_def passwordTyped_def
        truthy_def)
  with d(1) show ?thesis by blast
qed

subsection \<open>The report of either version in terms of its candidates\<close>

lemma permissive_report:
  assumes "parseHtmlForAuthForms_permissive eng doc = Inr r"
    and "authInputs_permissive eng doc = Inr cs"
  shows "r = (if cs = [] then negativeResult
              else located (candidateScore_permissive eng doc) eng doc cs)"
  using permissive_Inr [OF assms(1)] assms(2) by auto

lemma strict_report:
  assumes "parseHtmlForAuthForms_strict eng doc = Inr r"
    and "potentialAuthInputs_strict eng doc = Inr cs"
  shows "r = (if cs = [] then negativeResult
              else (let deduped = located (candidateScore_strict eng doc) eng doc cs
                    in if passwordInputs deduped = [] \<and>
                          \<not> list_ex identityInput (otherInputs deduped)
                       then negativeResult else deduped))"
  using strict_Inr [OF assms(1)] assms(2) by auto

lemma strict_positive:
  assumes "parseHtmlForAuthForms_strict eng doc = Inr r" and "hasPasswordInput r"
    and "potentialAuthInputs_strict eng doc = Inr cs"
  shows "cs \<noteq> [] \<and> r = located (candidateScore_strict eng doc) eng doc cs"
  using strict_report [OF assms(1,3)] assms(2)
  by (auto simp: Let_def split: if_splits)

lemma permissive_positive:
  assumes "parseHtmlForAuthForms_permissive eng doc = Inr r" and "hasPasswordInput r"
    and "authInputs_permissive eng doc = Inr cs"
  shows "cs \<noteq> [] \<and> r = located (candidateScore_permissive eng doc) eng doc cs"
  using permissive_report [OF assms(1,3)] assms(2)
  by (auto split: if_splits)

subsection \<open>The classified lists are those of the classification loop\<close>

lemma collectInputs_collected:
  "collectInputs eng doc 0 cs {} [] = Inr all \<Longrightarrow> all = collected doc 0 cs {}"
  using collectInputs_Inr [of eng doc 0 cs "{}" "[]" all] by simp

lemma categorize_classified:
  assumes "collectInputs eng doc 0 cs {} [] = Inr all"
  shows "passwordInputs (categorize doc all emptyPositive) = classifiedPasswords doc cs"
    and "otherInputs (categorize doc all emptyPositive) = classifiedOthers doc cs"
  using collectInputs_collected [OF assms]
  by (simp_all add: categorize_eq emptyPositive_def classifiedPasswords_def classifiedOthers_def)

subsection \<open>A run on a page within the budgets of the engine\<close>

lemma andThen_total:
  assumes "\<exists>v. x = Inr v" and "\<And>v. \<exists>w. f v = Inr w"
  shows "\<exists>w. andThen x f = Inr w"
  using assms by (auto simp: andThen_def)

lemma if_Inr_total: "\<exists>b. (if c then Inr x else Inr y) = Inr b"
  by simp

lemma textOf_total:
  "\<forall>e. \<not> tooDeep (textDepth eng) doc e \<Longrightarrow> \<exists>s. textOf eng doc es = Inr s"
  by (simp add: textOf_def list_ex_iff)

lemma outerHTML_total:
  "\<forall>e. \<not> tooDeep (markupDepth eng) doc e \<Longrightarrow> outerHTML eng doc e = Inr (markupOf doc e)"
  by (simp add: outerHTML_def)

lemma context_total:
  assumes "\<forall>e. \<not> tooDeep (textDepth eng) doc e"
  shows "\<exists>b. hasAuthenticationContext_permissive eng doc e = Inr b"
    and "\<exists>b. hasAuthenticationContext_strict eng doc e = Inr b"
proof -
  obtain a where a: "textOf eng doc (elements (parent doc e)) = Inr a"
    using textOf_total [OF assms] by blast
  obtain b where b: "(if closest ''form'' doc e \<noteq> None
      then textOf eng doc (elements (closest ''form'' doc e)) else Inr []) = Inr b"
    using textOf_total [OF assms, of "elements (closest ''form'' doc e)"]
    by (cases "closest ''form'' doc e \<noteq> None") auto
  obtain c where c: "textOf eng doc
      (add_sel doc (find_in (buttonLike eng) doc (parent doc e))
         (find_in (buttonLike eng) doc (closest ''form'' doc e))) = Inr c"
    using textOf_total [OF assms] by blast
  show "\<exists>b. hasAuthenticationContext_permissive eng doc e = Inr b"
    unfolding hasAuthenticationContext_permissive_def Let_def a b c andThen_Inr by blast
  show "\<exists>b. hasAuthenticationContext_strict eng doc e = Inr b"
    unfolding hasAuthenticationContext_strict_def Let_def a b c andThen_Inr by blast
qed

lemma isAuthInput_total:
  assumes "\<forall>e. \<not> tooDeep (textDepth eng) doc e"
  shows "\<exists>b. isAuthInput_permissive eng doc e = Inr b"
    and "\<exists>b. isAuthInput_strict eng doc e = Inr b"
proof -
  from context_total [OF assms, of e] obtain p s where
    p: "hasAuthenticationContext_permissive eng doc e = Inr p" and
    s: "hasAuthenticationContext_strict eng doc e = Inr s" by blast
  show "\<exists>b. isAuthInput_permissive eng doc e = Inr b"
    unfolding isAuthInput_permissive_def Let_def p andThen_Inr
    by (rule if_Inr_total)
  show "\<exists>b. isAuthInput_strict eng doc e = Inr b"
    unfolding isAuthInput_strict_def Let_def s andThen_Inr
    by (rule if_Inr_total)
qed

lemma filterInputs_total:
  "(\<And>e. \<exists>b. test e = Inr b) \<Longrightarrow> \<exists>cs. filterInputs test es = Inr cs"
proof (induction es)
  case Nil
  then show ?case by simp
next
  case (Cons e es)
  from Cons.prems obtain b where "test e = Inr b" by blast
  moreover from Cons obtain cs where "filterInputs test es = Inr cs" by blast
  ultimately show ?case by simp
qed

lemma collectInputs_total:
  "\<forall>e. \<not> tooDeep (markupDepth eng) doc e \<Longrightarrow>
   \<exists>all. collectInputs eng doc i es P acc = Inr all"
  by (induction es arbitrary: i P acc) (simp_all add: Let_def authInputOf_def outerHTML_total)

lemma fillContainer_total:
  "\<forall>e. \<not> tooDeep (markupDepth eng) doc e \<Longrightarrow>
   \<exists>af'. fillContainer cand eng doc all af = Inr af'"
  by (cases all) (auto simp: fillContainer_def firstElement_Cons outerHTML_total Let_def
      split: option.splits)

lemma shallow_total:
  assumes "\<forall>e. \<not> tooDeep (textDepth eng) doc e" and "\<forall>e. \<not> tooDeep (markupDepth eng) doc e"
  shows "\<exists>r. parseHtmlForAuthForms_permissive eng doc = Inr r"
    and "\<exists>r. parseHtmlForAuthForms_strict eng doc = Inr r"
proof -
  from filterInputs_total [of "isAuthInput_permissive eng doc"] isAuthInput_total [OF assms(1)]
  obtain cs where cs: "authInputs_permissive eng doc = Inr cs"
    unfolding authInputs_permissive_def Let_def by blast
  from collectInputs_total [OF assms(2)] obtain all where
    all: "collectInputs eng doc 0 cs {} [] = Inr all" by blast
  from fillContainer_total [OF assms(2)] obtain af where
    "fillContainer (candidateScore_permissive eng doc) eng doc all
       (categorize doc all emptyPositive) = Inr af" by blast
  with cs all show "\<exists>r. parseHtmlForAuthForms_permissive eng doc = Inr r"
    by (simp add: parseHtmlForAuthForms_permissive_def Let_def)
  from filterInputs_total [of "isAuthInput_strict eng doc"] isAuthInput_total [OF assms(1)]
  obtain cs where cs: "potentialAuthInputs_strict eng doc = Inr cs"
    unfolding potentialAuthInputs_strict_def Let_def by blast
  from collectInputs_total [OF assms(2)] obtain all where
    all: "collectInputs eng doc 0 cs {} [] = Inr all" by blast
  from fillContainer_total [OF assms(2)] obtain af where
    "fillContainer (candidateScore_strict eng doc) eng doc all
       (categorize doc all emptyPositive) = Inr af" by blast
  with cs all show "\<exists>r. parseHtmlForAuthForms_strict eng doc = Inr r"
    by (simp add: parseHtmlForAuthForms_strict_def Let_def)
qed

subsection \<open>The depth of a page bounds the height of each of its subtrees\<close>

lemma foldr_max_ge: "x \<in> set xs \<Longrightarrow> f x \<le> foldr max (map f xs) (0::nat)"
  by (induction xs) (auto simp: max_def)

lemma children_height: "foldr max (map height (childrenOf n)) 0 \<le> height n"
  by (cases n) simp_all

lemma nodeAt_height: "nodeAt ns e = Some n \<Longrightarrow> height n \<le> foldr max (map height ns) 0"
proof (induction ns e rule: nodeAt.induct)
  case (1 ns)
  then show ?case by simp
next
  case (2 ns i)
  then show ?case by (auto simp: foldr_max_ge split: if_splits)
next
  case (3 ns i j p)
  then have i: "i < length ns" and at: "nodeAt (childrenOf (ns ! i)) (j # p) = Some n"
    by (auto split: if_splits)
  from 3 i at have "height n \<le> foldr max (map height (childrenOf (ns ! i))) 0" by simp
  also have "\<dots> \<le> height (ns ! i)" by (rule children_height)
  also from i have "\<dots> \<le> foldr max (map height ns) 0" by (simp add: foldr_max_ge)
  finally show ?case .
qed

lemma depthOf_tooDeep: "depthOf doc \<le> limit \<Longrightarrow> \<not> tooDeep limit doc e"
  using nodeAt_height [of doc e]
  by (auto simp: tooDeep_def depthOf_def split: option.splits)

lemma no_candidates_negative:
  "authInputs_permissive eng doc = Inr [] \<Longrightarrow>
     parseHtmlForAuthForms_permissive eng doc = Inr negativeResult"
  "potentialAuthInputs_strict eng doc = Inr [] \<Longrightarrow>
     parseHtmlForAuthForms_strict eng doc = Inr negativeResult"
  by (simp_all add: parseHtmlForAuthForms_permissive_def parseHtmlForAuthForms_strict_def Let_def
      fillContainer_def deduplicate_def emptyPositive_def uniqueInputs_def)

lemma deep_container:
  assumes "cs \<noteq> []" and "finalParent cand doc (hd cs) = Some fp"
    and "tooDeep (markupDepth eng) doc fp"
  shows "authInputs_permissive eng doc = Inr cs \<Longrightarrow> cand = candidateScore_permissive eng doc \<Longrightarrow>
           parseHtmlForAuthForms_permissive eng doc = Inl RangeError"
    and "potentialAuthInputs_strict eng doc = Inr cs \<Longrightarrow> cand = candidateScore_strict eng doc \<Longrightarrow>
           parseHtmlForAuthForms_strict eng doc = Inl RangeError"
  using assms(1) pipeline_tooDeep [OF assms]
  by (simp_all add: parseHtmlForAuthForms_permissive_def parseHtmlForAuthForms_strict_def Let_def)

section \<open>The properties\<close>

subsection \<open>C1\<close>

text \<open>
  Claim C1 does not hold of the code: the detector raises on deeply nested markup. Whenever
  the container that the locator has chosen is the root of a subtree with more levels than
  the engine's serializer can walk, \<^verbatim>\<open>$finalParent.prop('outerHTML')\<close> raises
  \<^verbatim>\<open>RangeError\<close> and both versions of \<^verbatim>\<open>parseHtmlForAuthForms\<close> end with that error
  instead of a report. What does hold: without a candidate input both versions return the
  negative default, \<^verbatim>\<open>RangeError\<close> is the only error either version raises, and on a page
  with no more levels than the engine's two budgets both versions return a report.
\<close>

theorem deep_container_raises:
  "(authInputs_permissive eng doc = Inr cs \<and> cs \<noteq> [] \<and>
    finalParent (candidateScore_permissive eng doc) doc (hd cs) = Some fp \<and>
    nodeAt doc fp = Some n \<and> markupDepth eng < height n \<longrightarrow>
      parseHtmlForAuthForms_permissive eng doc = Inl RangeError) \<and>
   (potentialAuthInputs_strict eng doc = Inr cs \<and> cs \<noteq> [] \<and>
    finalParent (candidateScore_strict eng doc) doc (hd cs) = Some fp \<and>
    nodeAt doc fp = Some n \<and> markupDepth eng < height n \<longrightarrow>
      parseHtmlForAuthForms_strict eng doc = Inl RangeError) \<and>
   (authInputs_permissive eng doc = Inr [] \<longrightarrow>
      parseHtmlForAuthForms_permissive eng doc = Inr negativeResult) \<and>
   (potentialAuthInputs_strict eng doc = Inr [] \<longrightarrow>
      parseHtmlForAuthForms_strict eng doc = Inr negativeResult) \<and>
   (parseHtmlForAuthForms_permissive eng doc = Inl err \<or>
    parseHtmlForAuthForms_strict eng doc = Inl err \<longrightarrow> err = RangeError) \<and>
   (depthOf doc \<le> textDepth eng \<and> depthOf doc \<le> markupDepth eng \<longrightarrow>
      (\<exists>r. parseHtmlForAuthForms_permissive eng doc = Inr r) \<and>
      (\<exists>r. parseHtmlForAuthForms_strict eng doc = Inr r))"
proof (intro conjI impI)
  assume h: "authInputs_permissive eng doc = Inr cs \<and> cs \<noteq> [] \<and>
    finalParent (candidateScore_permissive eng doc) doc (hd cs) = Some fp \<and>
    nodeAt doc fp = Some n \<and> markupDepth eng < height n"
  then have "tooDeep (markupDepth eng) doc fp" by (simp add: tooDeep_def)
  with h show "parseHtmlForAuthForms_permissive eng doc = Inl RangeError"
    using deep_container(1) [of cs "candidateScore_permissive eng doc" doc fp eng] by simp
next
  assume h: "potentialAuthInputs_strict eng doc = Inr cs \<and> cs \<noteq> [] \<and>
    finalParent (candidateScore_strict eng doc) doc (hd cs) = Some fp \<and>
    nodeAt doc fp = Some n \<and> markupDepth eng < height n"
  then have "tooDeep (markupDepth eng) doc fp" by (simp add: tooDeep_def)
  with h show "parseHtmlForAuthForms_strict eng doc = Inl RangeError"
    using deep_container(2) [of cs "candidateScore_strict eng doc" doc fp eng] by simp
next
  assume "authInputs_permissive eng doc = Inr []"
  then show "parseHtmlForAuthForms_permissive eng doc = Inr negativeResult"
    by (rule no_candidates_negative)
next
  assume "potentialAuthInputs_strict eng doc = Inr []"
  then show "parseHtmlForAuthForms_strict eng doc = Inr negativeResult"
    by (rule no_candidates_negative)
next
  assume "parseHtmlForAuthForms_permissive eng doc = Inl err \<or>
    parseHtmlForAuthForms_strict eng doc = Inl err"
  then show "err = RangeError" by (auto dest: permissive_error strict_error)
next
  assume h: "depthOf doc \<le> textDepth eng \<and> depthOf doc \<le> markupDepth eng"
  then have "\<forall>e. \<not> tooDeep (textDepth eng) doc e" "\<forall>e. \<not> tooDeep (markupDepth eng) doc e"
    by (simp_all add: depthOf_tooDeep)
  then show "\<exists>r. parseHtmlForAuthForms_permissive eng doc = Inr r"
    and "\<exists>r. parseHtmlForAuthForms_strict eng doc = Inr r"
    by (rule shallow_total)+
qed

text \<open>
  A password input beside eight nested \<^verbatim>\<open>div\<close>s, on an engine that serializes up to six
  levels: the container is the outer \<^verbatim>\<open>div\<close>, a subtree of ten levels, and both versions
  raise. The login page has four levels, and the engine of 64 levels returns a report for it.
\<close>

theorem deep_container_raises_witness:
  "authInputs_permissive (engineOfDepth 6) (deepSibling 8) = Inr [[0, 1, 0, 0]] \<and>
   potentialAuthInputs_strict (engineOfDepth 6) (deepSibling 8) = Inr [[0, 1, 0, 0]] \<and>
   finalParent (candidateScore_permissive (engineOfDepth 6) (deepSibling 8)) (deepSibling 8)
     [0, 1, 0, 0] = Some [0, 1, 0] \<and>
   finalParent (candidateScore_strict (engineOfDepth 6) (deepSibling 8)) (deepSibling 8)
     [0, 1, 0, 0] = Some [0, 1, 0] \<and>
   map_option height (nodeAt (deepSibling 8) [0, 1, 0]) = Some 10 \<and>
   parseHtmlForAuthForms_permissive (engineOfDepth 6) (deepSibling 8) = Inl RangeError \<and>
   parseHtmlForAuthForms_strict (engineOfDepth 6) (deepSibling 8) = Inl RangeError \<and>
   depthOf loginPage = 4 \<and>
   (\<exists>r. parseHtmlForAuthForms_permissive plain loginPage = Inr r) \<and>
   (\<exists>r. parseHtmlForAuthForms_strict plain loginPage = Inr r)"
proof -
  let ?eng = "engineOfDepth 6" and ?doc = "deepSibling 8"
  have csP: "authInputs_permissive ?eng ?doc = Inr [[0, 1, 0, 0]]" by code_simp
  have csS: "potentialAuthInputs_strict ?eng ?doc = Inr [[0, 1, 0, 0]]" by code_simp
  have fpP: "finalParent (candidateScore_permissive ?eng ?doc) ?doc [0, 1, 0, 0] = Some [0, 1, 0]"
    by code_simp
  have fpS: "finalParent (candidateScore_strict ?eng ?doc) ?doc [0, 1, 0, 0] = Some [0, 1, 0]"
    by code_simp
  have ht: "map_option height (nodeAt ?doc [0, 1, 0]) = Some 10" by code_simp
  then obtain n where n: "nodeAt ?doc [0, 1, 0] = Some n" "height n = 10" by auto
  have budget: "markupDepth ?eng = 6" by (simp add: engineOfDepth_def)
  note inst = deep_container_raises [of ?eng ?doc "[[0, 1, 0, 0]]" "[0, 1, 0]" n]
  have raiseP: "parseHtmlForAuthForms_permissive ?eng ?doc = Inl RangeError"
    using inst [THEN conjunct1] csP fpP n budget by simp
  have raiseS: "parseHtmlForAuthForms_strict ?eng ?doc = Inl RangeError"
    using inst [THEN conjunct2, THEN conjunct1] csS fpS n budget by simp
  have depth: "depthOf loginPage = 4" by code_simp
  have "textDepth plain = 64" "markupDepth plain = 64"
    by (simp_all add: plain_def engineOfDepth_def)
  with depth have "depthOf loginPage \<le> textDepth plain \<and> depthOf loginPage \<le> markupDepth plain"
    by simp
  with deep_container_raises [of plain loginPage, THEN conjunct2, THEN conjunct2, THEN conjunct2,
      THEN conjunct2, THEN conjunct2]
  have "(\<exists>r. parseHtmlForAuthForms_permissive plain loginPage = Inr r) \<and>
        (\<exists>r. parseHtmlForAuthForms_strict plain loginPage = Inr r)" by blast
  with csP csS fpP fpS ht raiseP raiseS depth show ?thesis by blast
qed

text \<open>The same page on the engine of 64 levels gives a positive report.\<close>

lemma deep_container_within_budget:
  "map_sum id hasPasswordInput (parseHtmlForAuthForms_permissive plain (deepSibling 8)) = Inr True \<and>
   map_sum id hasPasswordInput (parseHtmlForAuthForms_strict plain (deepSibling 8)) = Inr True"
  by code_simp

subsection \<open>C2\<close>

text \<open>
  Claim C2 does not hold of the code: a password input can be left out of
  \<^verbatim>\<open>passwordInputs\<close>. The key under which the collecting loop remembers an input is built
  from the id or else the name, both written as \<^verbatim>\<open>id="..."\<close>, so a password input with the
  id \<^verbatim>\<open>secret\<close> and a password input with the name \<^verbatim>\<open>secret\<close> get the same key
  \<^verbatim>\<open>password[id="secret"]\<close>. The second one is skipped: both versions report one entry, with
  the id \<^verbatim>\<open>secret\<close> and no name, and no entry with the name \<^verbatim>\<open>secret\<close>.
\<close>

theorem password_input_skipped:
  "select (isTag ''input'') clashingPasswords = [[0, 1, 0, 0], [0, 1, 0, 1]] \<and>
   attr clashingPasswords [0, 1, 0, 0] ''type'' = Some ''password'' \<and>
   attr clashingPasswords [0, 1, 0, 0] ''id'' = Some ''secret'' \<and>
   attr clashingPasswords [0, 1, 0, 0] ''name'' = None \<and>
   attr clashingPasswords [0, 1, 0, 1] ''type'' = Some ''password'' \<and>
   attr clashingPasswords [0, 1, 0, 1] ''id'' = None \<and>
   attr clashingPasswords [0, 1, 0, 1] ''name'' = Some ''secret'' \<and>
   authInputs_permissive plain clashingPasswords = Inr [[0, 1, 0, 0], [0, 1, 0, 1]] \<and>
   potentialAuthInputs_strict plain clashingPasswords = Inr [[0, 1, 0, 0], [0, 1, 0, 1]] \<and>
   inputSelector clashingPasswords 0 [0, 1, 0, 0] = ''password[id=\"secret\"]'' \<and>
   inputSelector clashingPasswords 1 [0, 1, 0, 1] = ''password[id=\"secret\"]'' \<and>
   map_sum id hasPasswordInput (parseHtmlForAuthForms_permissive plain clashingPasswords) = Inr True \<and>
   map_sum id passwordInputs (parseHtmlForAuthForms_permissive plain clashingPasswords) =
     Inr [\<lparr>pw_selector = ''<input type=\"password\" id=\"secret\">'', pw_name = None,
           pw_id = Some ''secret'', pw_placeholder = None, pw_type = Some ''password''\<rparr>] \<and>
   map_sum id hasPasswordInput (parseHtmlForAuthForms_strict plain clashingPasswords) = Inr True \<and>
   map_sum id passwordInputs (parseHtmlForAuthForms_strict plain clashingPasswords) =
     Inr [\<lparr>pw_selector = ''<input type=\"password\" id=\"secret\">'', pw_name = None,
           pw_id = Some ''secret'', pw_placeholder = None, pw_type = Some ''password''\<rparr>]"
  by code_simp

text \<open>
  The key is a plain concatenation, so an earlier candidate of another type can produce the key
  of a password input as well. The strict version then drops the only password input of the
  page and, after its final validation, reports negatively.
\<close>

lemma strict_misses_shadowed_password:
  "attr shadowedPassword [0, 1, 0, 2] ''type'' = Some ''password'' \<and>
   potentialAuthInputs_strict plain shadowedPassword = Inr [[0, 1, 0, 1], [0, 1, 0, 2]] \<and>
   inputSelector shadowedPassword 0 [0, 1, 0, 1] = inputSelector shadowedPassword 1 [0, 1, 0, 2] \<and>
   parseHtmlForAuthForms_strict plain shadowedPassword = Inr negativeResult"
  by code_simp

text \<open>
  What the code does for a password input: it is a candidate in both versions, the
  permissive version reports positively, and when no earlier candidate has produced its key
  both versions report an entry with its id, its name and the type \<^verbatim>\<open>password\<close>.
\<close>

lemma password_input_recorded:
  assumes "e \<in> set (select (isTag ''input'') doc)" and "attr doc e ''type'' = Some ''password''"
  shows "(authInputs_permissive eng doc = Inr cs \<or> potentialAuthInputs_strict eng doc = Inr cs
            \<longrightarrow> e \<in> set cs) \<and>
         (parseHtmlForAuthForms_permissive eng doc = Inr r \<longrightarrow> hasPasswordInput r) \<and>
         ((parseHtmlForAuthForms_permissive eng doc = Inr r \<and> authInputs_permissive eng doc = Inr cs \<or>
           parseHtmlForAuthForms_strict eng doc = Inr r \<and> potentialAuthInputs_strict eng doc = Inr cs) \<and>
          k < length cs \<and> cs ! k = e \<and>
          (\<forall>j<k. inputSelector doc j (cs ! j) \<noteq> inputSelector doc k e) \<longrightarrow>
            hasPasswordInput r \<and>
            (\<exists>d\<in>set (passwordInputs r).
               pw_id d = truthy (attr doc e ''id'') \<and>
               pw_name d = truthy (attr doc e ''name'') \<and>
               pw_type d = Some ''password''))"
proof (intro conjI impI)
  assume "authInputs_permissive eng doc = Inr cs \<or> potentialAuthInputs_strict eng doc = Inr cs"
  then show "e \<in> set cs" using password_is_candidate [OF assms] by blast
next
  assume run: "parseHtmlForAuthForms_permissive eng doc = Inr r"
  from permissive_Inr [OF this] obtain cs' where
    cs': "authInputs_permissive eng doc = Inr cs'"
    "r = (if cs' = [] then negativeResult
          else located (candidateScore_permissive eng doc) eng doc cs')" by blast
  from password_is_candidate(1) [OF assms cs'(1)] have "cs' \<noteq> []" by auto
  with cs'(2) show "hasPasswordInput r" by simp
next
  assume h: "(parseHtmlForAuthForms_permissive eng doc = Inr r \<and> authInputs_permissive eng doc = Inr cs \<or>
           parseHtmlForAuthForms_strict eng doc = Inr r \<and> potentialAuthInputs_strict eng doc = Inr cs) \<and>
          k < length cs \<and> cs ! k = e \<and>
          (\<forall>j<k. inputSelector doc j (cs ! j) \<noteq> inputSelector doc k e)"
  then have ne: "cs \<noteq> []" by auto
  from h have "passwordTyped doc (cs ! k)" using assms(2) by (simp add: passwordTyped_def)
  from password_kept [OF _ this] h
  have kept: "\<exists>d\<in>set (uniqueInputs samePassword (classifiedPasswords doc cs)).
           pw_id d = truthy (attr doc e ''id'') \<and> pw_name d = truthy (attr doc e ''name'') \<and>
           pw_type d = Some ''password''" by auto
  then have pw: "passwordInputs (located cand eng doc cs) \<noteq> []" for cand by auto
  from h have "r = located (candidateScore_permissive eng doc) eng doc cs \<or>
               r = located (candidateScore_strict eng doc) eng doc cs"
    using permissive_report [of eng doc r cs] strict_report [of eng doc r cs] ne pw
    by (auto simp: Let_def)
  with kept show "hasPasswordInput r" and "\<exists>d\<in>set (passwordInputs r).
               pw_id d = truthy (attr doc e ''id'') \<and>
               pw_name d = truthy (attr doc e ''name'') \<and>
               pw_type d = Some ''password''"
    by auto
qed

subsection \<open>C3\<close>

text \<open>
  Claim C3, as amended. In the strict version the report is positive only if the deduplicated
  password list is non-empty or the deduplicated other-inputs list holds an entry whose type is
  \<^verbatim>\<open>email\<close> or whose name, id or placeholder contains \<^verbatim>\<open>email\<close>, \<^verbatim>\<open>username\<close> or
  \<^verbatim>\<open>user\<close>; this final validation runs after candidates were found. The permissive version
  has no final validation: its report is positive exactly when the scanner found a candidate
  input.
\<close>

theorem final_validation_strict_only:
  "(parseHtmlForAuthForms_strict eng doc = Inr r \<and> hasPasswordInput r \<longrightarrow>
      (\<exists>cs. potentialAuthInputs_strict eng doc = Inr cs \<and> cs \<noteq> []) \<and>
      (passwordInputs r \<noteq> [] \<or>
       (\<exists>d\<in>set (otherInputs r). identityInput d \<and> specIdentityInput d))) \<and>
   (parseHtmlForAuthForms_strict eng doc = Inr r \<and>
    potentialAuthInputs_strict eng doc = Inr cs \<and> cs \<noteq> [] \<and>
    classifiedPasswords doc cs = [] \<and>
    \<not> list_ex identityInput (uniqueInputs sameOther (classifiedOthers doc cs))
    \<longrightarrow> r = negativeResult) \<and>
   (parseHtmlForAuthForms_permissive eng doc = Inr r \<longrightarrow>
      (\<exists>cs. authInputs_permissive eng doc = Inr cs \<and> hasPasswordInput r = (cs \<noteq> [])))"
proof (intro conjI impI)
  assume h: "parseHtmlForAuthForms_strict eng doc = Inr r \<and> hasPasswordInput r"
  from strict_Inr [of eng doc r] h obtain cs where
    cs: "potentialAuthInputs_strict eng doc = Inr cs" by blast
  from strict_positive [OF _ _ cs] h
  have pos: "cs \<noteq> []" "r = located (candidateScore_strict eng doc) eng doc cs" by auto
  with cs show "\<exists>cs. potentialAuthInputs_strict eng doc = Inr cs \<and> cs \<noteq> []" by blast
  from strict_report [OF _ cs] h pos(1)
  have "passwordInputs r \<noteq> [] \<or> list_ex identityInput (otherInputs r)"
    by (auto simp: Let_def split: if_splits)
  then show "passwordInputs r \<noteq> [] \<or>
       (\<exists>d\<in>set (otherInputs r). identityInput d \<and> specIdentityInput d)"
    by (auto simp: list_ex_iff dest: identityInput_spec)
next
  assume h: "parseHtmlForAuthForms_strict eng doc = Inr r \<and>
    potentialAuthInputs_strict eng doc = Inr cs \<and> cs \<noteq> [] \<and>
    classifiedPasswords doc cs = [] \<and>
    \<not> list_ex identityInput (uniqueInputs sameOther (classifiedOthers doc cs))"
  then have "r = (if cs = [] then negativeResult
              else (let deduped = located (candidateScore_strict eng doc) eng doc cs
                    in if passwordInputs deduped = [] \<and>
                          \<not> list_ex identityInput (otherInputs deduped)
                       then negativeResult else deduped))"
    using strict_report [of eng doc r cs] by blast
  with h show "r = negativeResult"
    by (simp add: Let_def uniqueInputs_def)
next
  assume h: "parseHtmlForAuthForms_permissive eng doc = Inr r"
  from permissive_Inr [OF h] show
    "\<exists>cs. authInputs_permissive eng doc = Inr cs \<and> hasPasswordInput r = (cs \<noteq> [])"
    by auto
qed

text \<open>
  The claim as stated fails in the permissive version on a search field next to the word
  Login: the report is positive, without a password entry and without an identity entry.
\<close>

theorem final_validation_strict_only_counterexample:
  "map_sum id hasPasswordInput (parseHtmlForAuthForms_permissive plain searchNearLogin) = Inr True \<and>
   map_sum id passwordInputs (parseHtmlForAuthForms_permissive plain searchNearLogin) = Inr [] \<and>
   map_sum id otherInputs (parseHtmlForAuthForms_permissive plain searchNearLogin) =
     Inr [\<lparr>oi_type = ''text'', oi_name = Some ''q'', oi_id = None, oi_placeholder = None\<rparr>] \<and>
   \<not> specIdentityInput
       \<lparr>oi_type = ''text'', oi_name = Some ''q'', oi_id = None, oi_placeholder = None\<rparr>"
  by code_simp

text \<open>
  On the login page the strict version reports positively with one password entry; on the
  search field next to the word Login it finds no candidate and reports negatively.
\<close>

theorem final_validation_strict_only_witness:
  "map_sum id hasPasswordInput (parseHtmlForAuthForms_strict plain loginPage) = Inr True \<and>
   map_sum id (map pw_name \<circ> passwordInputs) (parseHtmlForAuthForms_strict plain loginPage)
     = Inr [Some ''p''] \<and>
   potentialAuthInputs_strict plain loginPage = Inr [[0, 1, 0, 1]] \<and>
   (\<exists>cs. potentialAuthInputs_strict plain loginPage = Inr cs \<and> cs \<noteq> []) \<and>
   potentialAuthInputs_strict plain searchNearLogin = Inr [] \<and>
   parseHtmlForAuthForms_strict plain searchNearLogin = Inr negativeResult"
proof -
  have ok: "\<not> isl (parseHtmlForAuthForms_strict plain loginPage)" by code_simp
  then obtain r where run: "parseHtmlForAuthForms_strict plain loginPage = Inr r"
    by (cases "parseHtmlForAuthForms_strict plain loginPage") auto
  have pos: "map_sum id hasPasswordInput (parseHtmlForAuthForms_strict plain loginPage) = Inr True"
    by code_simp
  have pw: "map_sum id (map pw_name \<circ> passwordInputs) (parseHtmlForAuthForms_strict plain loginPage)
     = Inr [Some ''p'']" by code_simp
  have cs: "potentialAuthInputs_strict plain loginPage = Inr [[0, 1, 0, 1]]" by code_simp
  have none: "potentialAuthInputs_strict plain searchNearLogin = Inr []" by code_simp
  have neg: "parseHtmlForAuthForms_strict plain searchNearLogin = Inr negativeResult" by code_simp
  from run pos have "hasPasswordInput r" by simp
  with final_validation_strict_only [of plain loginPage r, THEN conjunct1] run
  have "\<exists>cs. potentialAuthInputs_strict plain loginPage = Inr cs \<and> cs \<noteq> []" by blast
  with pos pw cs none neg show ?thesis by blast
qed

subsection \<open>C4\<close>




end
